theory Spec2Isabelle
  imports Complex_Main "HOL-Library.Signed_Division" "HOL-Library.Char_ord"
begin

section \<open>Embedding of \<^verbatim>\<open>solve.js\<close>\<close>

text \<open>
  The program reconstructs the constant term of a polynomial from sample points by Lagrange
  interpolation at \<open>0\<close> over exact fractions of JavaScript BigInts.

  \<^item> A BigInt is an \<open>int\<close>. BigInt \<^verbatim>\<open>/\<close> and \<^verbatim>\<open>%\<close> truncate towards zero: they are
    \<open>sdiv\<close> and \<open>smod\<close>; with a zero divisor JavaScript throws a RangeError, which is
    the error \<open>DivisionByZero\<close> wherever the source does not guard the divisor itself.
  \<^item> Every \<^verbatim>\<open>throw\<close> is a value \<open>Inl e\<close> of the result type \<open>error + 'a\<close>; the text of
    the message is not kept, only its kind.
  \<^item> A string is a list of 8-bit characters, read as the code units U+0000 to U+00FF.
\<close>

datatype error =
    ZeroDenominator
  | NonIntegerResult
  | InvalidDigit
  | DigitOutOfRange
  | DivisionByZero

text \<open>Propagation of a thrown error through the next statement.\<close>

definition thenE :: "error + 'a \<Rightarrow> ('a \<Rightarrow> error + 'b) \<Rightarrow> error + 'b" where
  "thenE r f = (case r of Inl e \<Rightarrow> Inl e | Inr v \<Rightarrow> f v)"

subsection \<open>\<^verbatim>\<open>bigGcd\<close>\<close>

text \<open>
  The \<^verbatim>\<open>while (b !== 0n) { t = b; b = a % b; a = t }\<close> loop. The divisor of \<^verbatim>\<open>%\<close> is
  guarded by the loop condition.
\<close>

function bigGcd_loop :: "int \<Rightarrow> int \<Rightarrow> int" where
  "bigGcd_loop a b = (if b \<noteq> 0 then bigGcd_loop b (a smod b) else a)"
  by pat_completeness auto
termination
proof (relation "measure (\<lambda>(a, b). nat \<bar>b\<bar>)")
  show "wf (measure (\<lambda>(a, b). nat \<bar>b\<bar>))" by simp
next
  fix a b :: int
  assume "b \<noteq> 0"
  then have "\<bar>a smod b\<bar> < \<bar>b\<bar>"
    by (simp add: signed_modulo_int_def abs_mult sgn_if)
  then show "((b, a smod b), (a, b)) \<in> measure (\<lambda>(a, b). nat \<bar>b\<bar>)"
    by simp
qed

declare bigGcd_loop.simps [simp del]

definition bigGcd :: "int \<Rightarrow> int \<Rightarrow> int" where
  "bigGcd a b = bigGcd_loop (if a < 0 then - a else a) (if b < 0 then - b else b)"

subsection \<open>\<^verbatim>\<open>class Fraction\<close>\<close>

text \<open>The fields \<^verbatim>\<open>this.n\<close> and \<^verbatim>\<open>this.d\<close>, as \<open>fr_n\<close> and \<open>fr_d\<close>.\<close>

record Fraction =
  fr_n :: int
  fr_d :: int

text \<open>
  The constructor \<^verbatim>\<open>new Fraction(n, d)\<close>. The two divisions by \<^verbatim>\<open>g\<close> are not guarded in
  the source, so a zero \<^verbatim>\<open>g\<close> is the RangeError branch here.
\<close>

definition newFraction :: "int \<Rightarrow> int \<Rightarrow> error + Fraction" where
  "newFraction n d =
     (if d = 0 then Inl ZeroDenominator
      else
        let n' = (if d < 0 then - n else n);
            d' = (if d < 0 then - d else d);
            g = bigGcd n' d'
        in if g = 0 then Inl DivisionByZero
           else Inr \<lparr>fr_n = n' sdiv g, fr_d = d' sdiv g\<rparr>)"

definition fromBigInt :: "int \<Rightarrow> error + Fraction" where
  "fromBigInt x = newFraction x 1"

definition add :: "Fraction \<Rightarrow> Fraction \<Rightarrow> error + Fraction" where
  "add this other =
     (let n = fr_n this * fr_d other + fr_n other * fr_d this;
          d = fr_d this * fr_d other
      in newFraction n d)"

definition mul :: "Fraction \<Rightarrow> Fraction \<Rightarrow> error + Fraction" where
  "mul this other =
     (let n = fr_n this * fr_n other;
          d = fr_d this * fr_d other
      in newFraction n d)"

definition toBigIntExact :: "Fraction \<Rightarrow> error + int" where
  "toBigIntExact this =
     (if fr_d this = 0 then Inl DivisionByZero
      else if fr_n this smod fr_d this \<noteq> 0 then Inl NonIntegerResult
      else Inr (fr_n this sdiv fr_d this))"

text \<open>The invariant the specification states for a Fraction.\<close>

definition fraction_inv :: "Fraction \<Rightarrow> bool" where
  "fraction_inv f = (0 < fr_d f \<and> gcd \<bar>fr_n f\<bar> (fr_d f) = 1)"

subsection \<open>\<^verbatim>\<open>parseInBase\<close>\<close>

text \<open>
  \<^verbatim>\<open>String.prototype.trim\<close> removes the WhiteSpace and LineTerminator code points from both
  ends; below U+0100 these are TAB, LF, VT, FF, CR, SPACE and NBSP.
\<close>

definition isWhiteSpace :: "char \<Rightarrow> bool" where
  "isWhiteSpace c =
     (c = CHR 0x09 \<or> c = CHR 0x0A \<or> c = CHR 0x0B \<or> c = CHR 0x0C \<or> c = CHR 0x0D
      \<or> c = CHR '' '' \<or> c = CHR 0xA0)"

definition trim :: "string \<Rightarrow> string" where
  "trim s = rev (dropWhile isWhiteSpace (rev (dropWhile isWhiteSpace s)))"

text \<open>
  \<^verbatim>\<open>String.prototype.toLowerCase\<close> below U+0100: \<open>A\<close> to \<open>Z\<close> and the Latin-1 capitals
  U+00C0 to U+00DE (without the multiplication sign U+00D7) move up by 32.
\<close>

definition toLowerCaseChar :: "char \<Rightarrow> char" where
  "toLowerCaseChar c =
     (let u = (of_char c :: nat)
      in if (65 \<le> u \<and> u \<le> 90) \<or> (192 \<le> u \<and> u \<le> 222 \<and> u \<noteq> 215)
         then char_of (u + 32) else c)"

definition toLowerCase :: "string \<Rightarrow> string" where
  "toLowerCase s = map toLowerCaseChar s"

text \<open>
  The \<^verbatim>\<open>if\<close> chain of the loop body: a digit with its value, a space that is skipped
  (\<^verbatim>\<open>continue\<close>), or a character that makes the loop throw.
\<close>

datatype charClass = Digit int | Skip | Bad

definition classify :: "char \<Rightarrow> charClass" where
  "classify ch =
     (if CHR ''0'' \<le> ch \<and> ch \<le> CHR ''9'' then Digit (int (of_char ch) - 48)
      else if CHR ''a'' \<le> ch \<and> ch \<le> CHR ''z'' then Digit (10 + int (of_char ch) - 97)
      else if ch = CHR '' '' then Skip
      else Bad)"

fun parseLoop :: "int \<Rightarrow> int \<Rightarrow> string \<Rightarrow> error + int" where
  "parseLoop b res [] = Inr res"
| "parseLoop b res (ch # rest) =
     (case classify ch of
        Digit digit \<Rightarrow>
          if digit \<ge> b then Inl DigitOutOfRange
          else parseLoop b (res * b + digit) rest
      | Skip \<Rightarrow> parseLoop b res rest
      | Bad \<Rightarrow> Inl InvalidDigit)"

text \<open>\<^verbatim>\<open>base\<close> is an integral Number, so that \<^verbatim>\<open>BigInt(base)\<close> is that integer.\<close>

definition parseInBase :: "string \<Rightarrow> int \<Rightarrow> error + int" where
  "parseInBase str base = parseLoop base 0 (toLowerCase (trim str))"

subsection \<open>\<^verbatim>\<open>reconstructAtZero\<close>\<close>

text \<open>A point \<^verbatim>\<open>{ x, y }\<close>, with its fields as \<open>pt_x\<close> and \<open>pt_y\<close>.\<close>

record Point =
  pt_x :: int
  pt_y :: int

text \<open>
  \<^verbatim>\<open>points.slice(0, k)\<close> for an integral \<^verbatim>\<open>k\<close>: a negative end counts from the end of the
  array, and the end is clamped to the array.
\<close>

definition slice0 :: "'a list \<Rightarrow> int \<Rightarrow> 'a list" where
  "slice0 xs k =
     (if k < 0 then take (nat (int (length xs) + k)) xs else take (nat k) xs)"

text \<open>
  One round \<open>j\<close> of the inner loop on the pair \<open>(num, den)\<close>: nothing for \<open>j = i\<close>
  (\<^verbatim>\<open>continue\<close>), otherwise the two multiplications and the reduction by the gcd.
  The divisions are guarded by \<^verbatim>\<open>g > 1n\<close>.
\<close>

definition weightStep :: "Point list \<Rightarrow> nat \<Rightarrow> int \<times> int \<Rightarrow> nat \<Rightarrow> int \<times> int" where
  "weightStep P i acc j =
     (if j = i then acc
      else
        let xi = pt_x (P ! i);
            xj = pt_x (P ! j);
            num = fst acc * (- xj);
            den = snd acc * (xi - xj);
            g = bigGcd num den
        in if g > 1 then (num sdiv g, den sdiv g) else (num, den))"

text \<open>
  The inner loop \<^verbatim>\<open>for (let j = 0; j < P.length; j++)\<close> from \<open>num = den = 1\<close>; the
  result is the pair \<open>(num, den)\<close> after the last round.
\<close>

definition basisWeight :: "Point list \<Rightarrow> nat \<Rightarrow> int \<times> int" where
  "basisWeight P i = foldl (weightStep P i) (1, 1) [0..<length P]"

text \<open>
  The outer loop \<^verbatim>\<open>for (let i = 0; i < P.length; i++)\<close> over the indices still to visit,
  with the variable \<^verbatim>\<open>sum\<close> of the source as \<open>running\<close>; it stops at the first error of
  the constructor or of \<^verbatim>\<open>add\<close>. It is started on \<open>[0..<length P]\<close>.
\<close>

fun sumLoop :: "Point list \<Rightarrow> nat list \<Rightarrow> Fraction \<Rightarrow> error + Fraction" where
  "sumLoop P [] running = Inr running"
| "sumLoop P (i # rest) running =
     (let yi = pt_y (P ! i);
          (num, den) = basisWeight P i
      in case newFraction (yi * num) den of
           Inl e \<Rightarrow> Inl e
         | Inr term \<Rightarrow>
             (case add running term of
                Inl e \<Rightarrow> Inl e
              | Inr running' \<Rightarrow> sumLoop P rest running'))"

definition reconstructAtZero :: "Point list \<Rightarrow> int \<Rightarrow> error + int" where
  "reconstructAtZero points k =
     (let P = slice0 points k
      in case fromBigInt 0 of
           Inl e \<Rightarrow> Inl e
         | Inr sum0 \<Rightarrow>
             (case sumLoop P [0..<length P] sum0 of
                Inl e \<Rightarrow> Inl e
              | Inr running \<Rightarrow> toBigIntExact running))"

subsection \<open>The algorithm without the intermediate reduction\<close>

text \<open>
  The variant the specification allows: the same loops, with the reduction of
  \<open>num\<close> and \<open>den\<close> by their gcd left out of the inner loop.
\<close>

definition weightStep_noreduce :: "Point list \<Rightarrow> nat \<Rightarrow> int \<times> int \<Rightarrow> nat \<Rightarrow> int \<times> int" where
  "weightStep_noreduce P i acc j =
     (if j = i then acc
      else
        let xi = pt_x (P ! i);
            xj = pt_x (P ! j)
        in (fst acc * (- xj), snd acc * (xi - xj)))"

definition basisWeight_noreduce :: "Point list \<Rightarrow> nat \<Rightarrow> int \<times> int" where
  "basisWeight_noreduce P i = foldl (weightStep_noreduce P i) (1, 1) [0..<length P]"

fun sumLoop_noreduce :: "Point list \<Rightarrow> nat list \<Rightarrow> Fraction \<Rightarrow> error + Fraction" where
  "sumLoop_noreduce P [] running = Inr running"
| "sumLoop_noreduce P (i # rest) running =
     (let yi = pt_y (P ! i);
          (num, den) = basisWeight_noreduce P i
      in case newFraction (yi * num) den of
           Inl e \<Rightarrow> Inl e
         | Inr term \<Rightarrow>
             (case add running term of
                Inl e \<Rightarrow> Inl e
              | Inr running' \<Rightarrow> sumLoop_noreduce P rest running'))"

definition reconstructAtZero_noreduce :: "Point list \<Rightarrow> int \<Rightarrow> error + int" where
  "reconstructAtZero_noreduce points k =
     (let P = slice0 points k
      in case fromBigInt 0 of
           Inl e \<Rightarrow> Inl e
         | Inr sum0 \<Rightarrow>
             (case sumLoop_noreduce P [0..<length P] sum0 of
                Inl e \<Rightarrow> Inl e
              | Inr running \<Rightarrow> toBigIntExact running))"

subsection \<open>Notions of the specification\<close>

text \<open>
  A polynomial with integer coefficients, lowest degree first, and its value at a point
  (Horner's rule). The constant term of \<open>c # cs\<close> is \<open>c\<close>.
\<close>

fun peval :: "int list \<Rightarrow> int \<Rightarrow> int" where
  "peval [] x = 0"
| "peval (c # cs) x = c + x * peval cs x"

text \<open>
  The characters that \<^verbatim>\<open>trim\<close> removes from both ends of a string, as a table: TAB, LF, VT,
  FF, CR, SPACE and NBSP.
\<close>

definition whiteSpaceChars :: string where
  "whiteSpaceChars = [CHR 0x09, CHR 0x0A, CHR 0x0B, CHR 0x0C, CHR 0x0D, CHR 0x20, CHR 0xA0]"

text \<open>
  The digit value of a character of the input, as a table: \<open>0\<close> to \<open>9\<close> stand for 0 to 9,
  \<open>a\<close> to \<open>z\<close> for 10 to 35, and a capital letter for the value of its small letter. Every
  other character, the space among them, has no digit value.
\<close>

definition digitValue :: "char \<Rightarrow> int option" where
  "digitValue ch =
     map_of (zip (''0123456789abcdefghijklmnopqrstuvwxyz'' @ ''ABCDEFGHIJKLMNOPQRSTUVWXYZ'')
                 ([0..35] @ [10..35])) ch"

text \<open>
  Positional notation: the value of a list of digit values, most significant first.
\<close>

definition positional :: "int \<Rightarrow> int list \<Rightarrow> int" where
  "positional b ds = (\<Sum>i < length ds. ds ! i * b ^ (length ds - 1 - i))"

text \<open>The digit values of the characters that are not skipped.\<close>

fun digitsOf :: "string \<Rightarrow> int list" where
  "digitsOf [] = []"
| "digitsOf (ch # rest) =
     (case classify ch of Digit v \<Rightarrow> v # digitsOf rest | _ \<Rightarrow> digitsOf rest)"

text \<open>The first character that stops the loop in base \<open>b\<close>, if there is one.\<close>

fun firstOffending :: "int \<Rightarrow> string \<Rightarrow> charClass option" where
  "firstOffending b [] = None"
| "firstOffending b (ch # rest) =
     (case classify ch of
        Digit v \<Rightarrow> if v \<ge> b then Some (Digit v) else firstOffending b rest
      | Skip \<Rightarrow> firstOffending b rest
      | Bad \<Rightarrow> Some Bad)"

text \<open>A character that does not stop the loop in base \<open>b\<close>: a space or a digit below \<open>b\<close>.\<close>

definition accepted :: "int \<Rightarrow> char \<Rightarrow> bool" where
  "accepted b ch = (case classify ch of Digit v \<Rightarrow> v < b | Skip \<Rightarrow> True | Bad \<Rightarrow> False)"

text \<open>
  The factors that round \<open>j\<close> of the inner loop multiplies into the numerator and the
  denominator of the basis weight of index \<open>i\<close> (the round \<open>j = i\<close> is skipped).
\<close>

definition numFactor :: "Point list \<Rightarrow> nat \<Rightarrow> nat \<Rightarrow> int" where
  "numFactor P i j = (if j = i then 1 else - pt_x (P ! j))"

definition denFactor :: "Point list \<Rightarrow> nat \<Rightarrow> nat \<Rightarrow> int" where
  "denFactor P i j = (if j = i then 1 else pt_x (P ! i) - pt_x (P ! j))"

text \<open>
  The value of the polynomial at a real point, and the functions on the reals that are
  polynomials of degree at most \<open>n\<close>.
\<close>

fun peval_real :: "int list \<Rightarrow> real \<Rightarrow> real" where
  "peval_real [] t = 0"
| "peval_real (c # cs) t = of_int c + t * peval_real cs t"

definition polyfn :: "nat \<Rightarrow> (real \<Rightarrow> real) \<Rightarrow> bool" where
  "polyfn n g \<longleftrightarrow> (\<exists>c. (\<forall>i>n. c i = 0) \<and> (\<forall>t. g t = (\<Sum>i\<le>n. c i * t ^ i)))"

text \<open>The rational number a Fraction stands for.\<close>

definition fval :: "Fraction \<Rightarrow> real" where
  "fval f = of_int (fr_n f) / of_int (fr_d f)"

section \<open>Integer arithmetic of the program\<close>

text \<open>
  The loop of \<open>bigGcd\<close> is Euclid's algorithm; on non-negative arguments the truncating
  remainder is the usual one.
\<close>

lemma bigGcd_loop_gcd: "0 \<le> a \<Longrightarrow> 0 \<le> b \<Longrightarrow> bigGcd_loop a b = gcd a b"
proof (induction a b rule: bigGcd_loop.induct)
  case (1 a b)
  show ?case
  proof (cases "b = 0")
    case True
    with 1 show ?thesis by (simp add: bigGcd_loop.simps)
  next
    case False
    from 1 False have sm: "a smod b = a mod b"
      by (simp add: signed_modulo_int_def sgn_if)
    have "0 \<le> a mod b" using 1 False by simp
    with 1 False sm have "bigGcd_loop b (a smod b) = gcd b (a mod b)" by simp
    then show ?thesis using False
      by (subst bigGcd_loop.simps) (simp add: gcd.commute [of b] gcd_red_int [symmetric])
  qed
qed

lemma bigGcd_gcd: "bigGcd a b = gcd a b"
  unfolding bigGcd_def by (simp add: bigGcd_loop_gcd)

lemma sdiv_exact: "g dvd a \<Longrightarrow> a sdiv g = a div (g::int)"
  by (simp add: signed_divide_int_eq_divide_int)

lemma smod_zero_iff: "a smod b = 0 \<longleftrightarrow> b dvd (a::int)"
  by (auto simp: signed_modulo_int_def sgn_if dvd_eq_mod_eq_0 [symmetric])

lemma newFraction_eq:
  assumes "d \<noteq> 0"
  shows "newFraction n d = Inr \<lparr>fr_n = (sgn d * n) div gcd n d, fr_d = \<bar>d\<bar> div gcd n d\<rparr>"
  using assms
  by (auto simp: newFraction_def Let_def bigGcd_gcd sdiv_exact sgn_if)

lemma newFraction_zero: "newFraction n 0 = Inl ZeroDenominator"
  by (simp add: newFraction_def)

lemma newFraction_Inr_iff: "(\<exists>f. newFraction n d = Inr f) \<longleftrightarrow> d \<noteq> 0"
  by (cases "d = 0") (simp_all add: newFraction_zero newFraction_eq)

lemma newFraction_inv:
  assumes "newFraction n d = Inr f"
  shows "fraction_inv f"
proof -
  from assms have d: "d \<noteq> 0" by (auto simp: newFraction_zero)
  let ?g = "gcd n d"
  have g: "0 < ?g" using d by (simp add: gcd_pos_int)
  have f: "f = \<lparr>fr_n = (sgn d * n) div ?g, fr_d = \<bar>d\<bar> div ?g\<rparr>"
    using assms newFraction_eq [OF d, of n] by simp
  have "?g dvd \<bar>d\<bar>" by simp
  moreover have "0 < \<bar>d\<bar>" using d by simp
  ultimately have "?g \<le> \<bar>d\<bar>" by (rule zdvd_imp_le)
  then have dpos: "0 < \<bar>d\<bar> div ?g" using g by (simp add: pos_imp_zdiv_pos_iff)
  have "coprime ((sgn d * n) div gcd (sgn d * n) \<bar>d\<bar>) (\<bar>d\<bar> div gcd (sgn d * n) \<bar>d\<bar>)"
    using d by (intro div_gcd_coprime) simp
  moreover have "gcd (sgn d * n) \<bar>d\<bar> = ?g"
    using d by (simp add: sgn_if)
  ultimately have "coprime ((sgn d * n) div ?g) (\<bar>d\<bar> div ?g)" by simp
  then have "gcd \<bar>(sgn d * n) div ?g\<bar> (\<bar>d\<bar> div ?g) = 1"
    by (simp add: coprime_iff_gcd_eq_1)
  with dpos f show ?thesis by (simp add: fraction_inv_def)
qed

lemma newFraction_fval:
  assumes "newFraction n d = Inr f"
  shows "fval f = of_int n / of_int d"
proof -
  from assms have d: "d \<noteq> 0" by (auto simp: newFraction_zero)
  let ?g = "gcd n d"
  have g: "?g \<noteq> 0" using d by simp
  have f: "f = \<lparr>fr_n = (sgn d * n) div ?g, fr_d = \<bar>d\<bar> div ?g\<rparr>"
    using assms newFraction_eq [OF d, of n] by simp
  have 1: "real_of_int ((sgn d * n) div ?g) = real_of_int (sgn d * n) / real_of_int ?g"
    by (intro real_of_int_div) simp
  have 2: "real_of_int (\<bar>d\<bar> div ?g) = real_of_int \<bar>d\<bar> / real_of_int ?g"
    by (intro real_of_int_div) simp
  have "fval f = real_of_int (sgn d * n) / real_of_int \<bar>d\<bar>"
    using g by (simp add: f fval_def 1 2)
  also have "\<dots> = of_int n / of_int d"
    using d by (simp add: sgn_if abs_if)
  finally show ?thesis .
qed

lemma add_fval:
  assumes "fr_d a \<noteq> 0" "fr_d b \<noteq> 0" "add a b = Inr f"
  shows "fval f = fval a + fval b"
proof -
  have "fval f = of_int (fr_n a * fr_d b + fr_n b * fr_d a) / of_int (fr_d a * fr_d b)"
    using assms(3) unfolding add_def Let_def by (rule newFraction_fval)
  then show ?thesis using assms(1,2)
    by (simp add: fval_def add_frac_eq)
qed

lemma add_Inr:
  assumes "fr_d a \<noteq> 0" "fr_d b \<noteq> 0"
  shows "\<exists>f. add a b = Inr f"
  using assms by (simp add: add_def Let_def newFraction_Inr_iff)

lemma add_inv: "add a b = Inr f \<Longrightarrow> fraction_inv f"
  unfolding add_def Let_def by (rule newFraction_inv)

lemma mul_inv: "mul a b = Inr f \<Longrightarrow> fraction_inv f"
  unfolding mul_def Let_def by (rule newFraction_inv)

lemma toBigIntExact_eq:
  assumes "fr_d f \<noteq> 0"
  shows "toBigIntExact f =
    (if fr_d f dvd fr_n f then Inr (fr_n f div fr_d f) else Inl NonIntegerResult)"
  using assms by (simp add: toBigIntExact_def smod_zero_iff sdiv_exact)

lemma toBigIntExact_of_int:
  assumes "fraction_inv f" "fval f = of_int v"
  shows "toBigIntExact f = Inr v"
proof -
  from assms(1) have d: "0 < fr_d f" by (simp add: fraction_inv_def)
  from assms(2) d have "real_of_int (fr_n f) = real_of_int (v * fr_d f)"
    by (simp add: fval_def field_simps)
  then have n: "fr_n f = v * fr_d f" by (simp only: of_int_eq_iff)
  then show ?thesis using d by (simp add: toBigIntExact_eq)
qed

section \<open>The exactness gate\<close>

text \<open>
  Claim C2. For a Fraction with numerator \<open>n\<close> and positive denominator \<open>d\<close>,
  \<open>toBigIntExact\<close> fails with \<open>NonIntegerResult\<close> exactly when \<open>n mod d \<noteq> 0\<close> and
  returns \<open>n / d\<close> otherwise; \<open>Fraction(1, 3)\<close> fails with \<open>NonIntegerResult\<close> and
  \<open>Fraction(6, 3)\<close> gives \<open>2\<close>.
\<close>

theorem toBigIntExact_gate:
  assumes "0 < d"
  shows "toBigIntExact \<lparr>fr_n = n, fr_d = d\<rparr> =
           (if n mod d \<noteq> 0 then Inl NonIntegerResult else Inr (n div d))
         \<and> thenE (newFraction 1 3) toBigIntExact = Inl NonIntegerResult
         \<and> thenE (newFraction 6 3) toBigIntExact = Inr 2"
proof -
  have "toBigIntExact \<lparr>fr_n = n, fr_d = d\<rparr> =
          (if n mod d \<noteq> 0 then Inl NonIntegerResult else Inr (n div d))"
    using assms by (simp add: toBigIntExact_eq dvd_eq_mod_eq_0)
  moreover have "thenE (newFraction 1 3) toBigIntExact = Inl NonIntegerResult"
    by code_simp
  moreover have "thenE (newFraction 6 3) toBigIntExact = Inr 2"
    by code_simp
  ultimately show ?thesis by simp
qed

theorem toBigIntExact_gate_witness:
  "(0::int) < 2
   \<and> toBigIntExact \<lparr>fr_n = - 7, fr_d = 2\<rparr> = Inl NonIntegerResult
   \<and> toBigIntExact \<lparr>fr_n = - 6, fr_d = 2\<rparr> = Inr (- 3)"
proof -
  have h: "(0::int) < 2" by simp
  show ?thesis
    using h toBigIntExact_gate [OF h, of "- 7"] toBigIntExact_gate [OF h, of "- 6"]
    by simp
qed

section \<open>The invariant of Fraction\<close>

text \<open>
  Claim C3. Every Fraction produced by the constructor, by \<open>add\<close> or by \<open>mul\<close> has a
  positive denominator and is in lowest terms; the constructor succeeds for every non-zero
  denominator, and \<open>add\<close> and \<open>mul\<close> succeed on Fractions that satisfy the invariant.
  \<open>Fraction(4, -8)\<close> is \<open>(-1, 2)\<close> and \<open>Fraction(0, 5)\<close> is \<open>(0, 1)\<close>.
\<close>

theorem fraction_invariant:
  "(newFraction n d = Inr f \<longrightarrow> fraction_inv f)
   \<and> (d \<noteq> 0 \<longrightarrow> (\<exists>f'. newFraction n d = Inr f'))
   \<and> (add a b = Inr s \<longrightarrow> fraction_inv s)
   \<and> (mul a b = Inr p \<longrightarrow> fraction_inv p)
   \<and> (fraction_inv a \<and> fraction_inv b \<longrightarrow> (\<exists>s' p'. add a b = Inr s' \<and> mul a b = Inr p'))
   \<and> newFraction 4 (- 8) = Inr \<lparr>fr_n = - 1, fr_d = 2\<rparr>
   \<and> newFraction 0 5 = Inr \<lparr>fr_n = 0, fr_d = 1\<rparr>"
proof -
  have 1: "newFraction n d = Inr f \<longrightarrow> fraction_inv f"
    by (simp add: newFraction_inv)
  have 2: "d \<noteq> 0 \<longrightarrow> (\<exists>f'. newFraction n d = Inr f')"
    by (simp add: newFraction_Inr_iff)
  have 3: "add a b = Inr s \<longrightarrow> fraction_inv s"
    by (simp add: add_inv)
  have 4: "mul a b = Inr p \<longrightarrow> fraction_inv p"
    by (simp add: mul_inv)
  have 5: "fraction_inv a \<and> fraction_inv b \<longrightarrow> (\<exists>s' p'. add a b = Inr s' \<and> mul a b = Inr p')"
    by (simp add: fraction_inv_def add_def mul_def Let_def newFraction_Inr_iff)
  have 6: "newFraction 4 (- 8) = Inr \<lparr>fr_n = - 1, fr_d = 2\<rparr>"
    by code_simp
  have 7: "newFraction 0 5 = Inr \<lparr>fr_n = 0, fr_d = 1\<rparr>"
    by code_simp
  from 1 2 3 4 5 6 7 show ?thesis by blast
qed

theorem fraction_invariant_witness:
  "newFraction 6 (- 4) = Inr \<lparr>fr_n = - 3, fr_d = 2\<rparr>
   \<and> fraction_inv \<lparr>fr_n = - 3, fr_d = 2\<rparr>
   \<and> add \<lparr>fr_n = 1, fr_d = 2\<rparr> \<lparr>fr_n = 1, fr_d = 6\<rparr> = Inr \<lparr>fr_n = 2, fr_d = 3\<rparr>
   \<and> fraction_inv \<lparr>fr_n = 2, fr_d = 3\<rparr>
   \<and> mul \<lparr>fr_n = 2, fr_d = 3\<rparr> \<lparr>fr_n = 3, fr_d = 4\<rparr> = Inr \<lparr>fr_n = 1, fr_d = 2\<rparr>
   \<and> fraction_inv \<lparr>fr_n = 1, fr_d = 2\<rparr>"
proof -
  have c: "newFraction 6 (- 4) = Inr \<lparr>fr_n = - 3, fr_d = 2\<rparr>"
    by code_simp
  have a: "add \<lparr>fr_n = 1, fr_d = 2\<rparr> \<lparr>fr_n = 1, fr_d = 6\<rparr> = Inr \<lparr>fr_n = 2, fr_d = 3\<rparr>"
    by code_simp
  have m: "mul \<lparr>fr_n = 2, fr_d = 3\<rparr> \<lparr>fr_n = 3, fr_d = 4\<rparr> = Inr \<lparr>fr_n = 1, fr_d = 2\<rparr>"
    by code_simp
  note t1 = fraction_invariant [of 6 "- 4" "\<lparr>fr_n = - 3, fr_d = 2\<rparr>"
      "\<lparr>fr_n = 1, fr_d = 2\<rparr>" "\<lparr>fr_n = 1, fr_d = 6\<rparr>" "\<lparr>fr_n = 2, fr_d = 3\<rparr>"]
  note t2 = fraction_invariant [of _ _ _
      "\<lparr>fr_n = 2, fr_d = 3\<rparr>" "\<lparr>fr_n = 3, fr_d = 4\<rparr>" _ "\<lparr>fr_n = 1, fr_d = 2\<rparr>"]
  have i1: "fraction_inv \<lparr>fr_n = - 3, fr_d = 2\<rparr>"
    using t1 c by blast
  have i2: "fraction_inv \<lparr>fr_n = 2, fr_d = 3\<rparr>"
    using t1 a by blast
  have i3: "fraction_inv \<lparr>fr_n = 1, fr_d = 2\<rparr>"
    using t2 m by blast
  from c a m i1 i2 i3 show ?thesis by blast
qed

section \<open>The decoder\<close>

text \<open>
  The loop of \<open>parseInBase\<close> is decided by the first character that is not accepted;
  when there is none, the accumulation is the positional value of the digits.
\<close>

lemma positional_Cons: "positional b (d # ds) = d * b ^ length ds + positional b ds"
  by (simp add: positional_def sum.lessThan_Suc_shift del: sum.lessThan_Suc)

lemma foldl_positional:
  "foldl (\<lambda>r d. r * b + d) res ds = res * b ^ length ds + positional b ds"
proof (induction ds arbitrary: res)
  case Nil
  show ?case by (simp add: positional_def)
next
  case (Cons d ds)
  have "foldl (\<lambda>r d. r * b + d) res (d # ds) = foldl (\<lambda>r d. r * b + d) (res * b + d) ds"
    by simp
  also have "\<dots> = (res * b + d) * b ^ length ds + positional b ds"
    by (rule Cons.IH)
  also have "\<dots> = res * b ^ length (d # ds) + positional b (d # ds)"
    by (simp add: positional_Cons algebra_simps)
  finally show ?case .
qed

lemma parseLoop_accepted:
  "\<forall>ch\<in>set s. accepted b ch \<Longrightarrow>
     parseLoop b res s = Inr (foldl (\<lambda>r d. r * b + d) res (digitsOf s))"
  by (induction s arbitrary: res) (auto simp: accepted_def split: charClass.splits)

lemma parseLoop_append:
  "\<forall>ch\<in>set pre. accepted b ch \<Longrightarrow>
     parseLoop b res (pre @ s) = parseLoop b (foldl (\<lambda>r d. r * b + d) res (digitsOf pre)) s"
  by (induction pre arbitrary: res) (auto simp: accepted_def split: charClass.splits)

lemma parseLoop_first:
  "parseLoop b res s =
     (case firstOffending b s of
        None \<Rightarrow> Inr (foldl (\<lambda>r d. r * b + d) res (digitsOf s))
      | Some Bad \<Rightarrow> Inl InvalidDigit
      | Some _ \<Rightarrow> Inl DigitOutOfRange)"
  by (induction s arbitrary: res) (auto split: charClass.splits option.splits)

lemma firstOffending_None: "firstOffending b s = None \<longleftrightarrow> (\<forall>ch\<in>set s. accepted b ch)"
  by (induction s) (auto simp: accepted_def split: charClass.splits)

lemma firstOffending_Some:
  "firstOffending b s = Some c \<longleftrightarrow>
     (\<exists>pre ch post. s = pre @ ch # post \<and> (\<forall>x\<in>set pre. accepted b x)
        \<and> \<not> accepted b ch \<and> classify ch = c)"
proof (induction s)
  case Nil
  show ?case by simp
next
  case (Cons a s)
  show ?case
  proof (cases "accepted b a")
    case True
    then have "firstOffending b (a # s) = firstOffending b s"
      by (auto simp: accepted_def split: charClass.splits)
    moreover have "(\<exists>pre ch post. a # s = pre @ ch # post \<and> (\<forall>x\<in>set pre. accepted b x)
        \<and> \<not> accepted b ch \<and> classify ch = c) \<longleftrightarrow>
       (\<exists>pre ch post. s = pre @ ch # post \<and> (\<forall>x\<in>set pre. accepted b x)
        \<and> \<not> accepted b ch \<and> classify ch = c)" (is "?L \<longleftrightarrow> ?R")
    proof
      assume ?L
      then obtain pre ch post where h: "a # s = pre @ ch # post" "\<forall>x\<in>set pre. accepted b x"
        "\<not> accepted b ch" "classify ch = c" by blast
      with True obtain pre' where "pre = a # pre'" by (cases pre) auto
      with h show ?R by auto
    next
      assume ?R
      then obtain pre ch post where h: "s = pre @ ch # post" "\<forall>x\<in>set pre. accepted b x"
        "\<not> accepted b ch" "classify ch = c" by blast
      then have "a # s = (a # pre) @ ch # post \<and> (\<forall>x\<in>set (a # pre). accepted b x)"
        using True by simp
      with h show ?L by blast
    qed
    ultimately show ?thesis using Cons.IH by simp
  next
    case False
    then have f: "firstOffending b (a # s) = Some (classify a)"
      by (auto simp: accepted_def split: charClass.splits)
    have "(\<exists>pre ch post. a # s = pre @ ch # post \<and> (\<forall>x\<in>set pre. accepted b x)
        \<and> \<not> accepted b ch \<and> classify ch = c) \<longleftrightarrow> classify a = c" (is "?L \<longleftrightarrow> ?R")
    proof
      assume ?L
      then obtain pre ch post where h: "a # s = pre @ ch # post" "\<forall>x\<in>set pre. accepted b x"
        "\<not> accepted b ch" "classify ch = c" by blast
      with False have "pre = []" by (cases pre) auto
      with h show ?R by simp
    next
      assume ?R
      then have "a # s = [] @ a # s \<and> (\<forall>x\<in>set []. accepted b x) \<and> \<not> accepted b a \<and> classify a = c"
        using False by simp
      then show ?L by blast
    qed
    with f show ?thesis by auto
  qed
qed

lemma classify_alphabet:
  "map classify ''0123456789abcdefghijklmnopqrstuvwxyz'' = map Digit [0..35]"
  by code_simp

lemma toLowerCase_upper:
  "toLowerCase ''ABCDEFGHIJKLMNOPQRSTUVWXYZ'' = ''abcdefghijklmnopqrstuvwxyz''"
  by code_simp

lemma trim_spaces: "\<forall>ch\<in>set s. ch = CHR '' '' \<Longrightarrow> trim s = []"
proof -
  assume "\<forall>ch\<in>set s. ch = CHR '' ''"
  then have "\<forall>ch\<in>set s. isWhiteSpace ch" by (simp add: isWhiteSpace_def)
  then have dw: "dropWhile isWhiteSpace s = []" by (simp only: dropWhile_eq_Nil_conv)
  show ?thesis unfolding trim_def dw by simp
qed

lemma parseInBase_accepted:
  assumes "\<forall>ch\<in>set (toLowerCase (trim str)). accepted base ch"
  shows "parseInBase str base =
           Inr (foldl (\<lambda>result digitValue. result * base + digitValue) 0
                  (digitsOf (toLowerCase (trim str))))"
    and "parseInBase str base = Inr (positional base (digitsOf (toLowerCase (trim str))))"
  using assms by (simp_all add: parseInBase_def parseLoop_accepted foldl_positional)

subsection \<open>The built-in string functions and the digit table\<close>

text \<open>
  On each of the 256 characters, the class of the lower-cased character is the one the
  digit table gives, and \<open>isWhiteSpace\<close> holds exactly on the table of white space.
  \<open>trim\<close> removes exactly the white space at both ends.
\<close>

lemma classify_folded:
  "\<forall>ch. classify (toLowerCaseChar ch) =
     (case digitValue ch of
        Some v \<Rightarrow> Digit v
      | None \<Rightarrow> if ch = CHR '' '' then Skip else Bad)"
  by code_simp

lemma isWhiteSpace_table: "\<forall>ch. isWhiteSpace ch \<longleftrightarrow> ch \<in> set whiteSpaceChars"
  by code_simp

lemma whiteSpace_no_digit: "\<forall>ch. ch \<in> set whiteSpaceChars \<longrightarrow> digitValue ch = None"
  by code_simp

lemma map_filter_append_list:
  "List.map_filter f (xs @ ys) = List.map_filter f xs @ List.map_filter f ys"
  by (simp add: List.map_filter_def)

lemma map_filter_none: "\<forall>x\<in>set xs. f x = None \<Longrightarrow> List.map_filter f xs = []"
  by (induction xs) simp_all

lemma digitValue_space: "digitValue CHR '' '' = None"
  by code_simp

lemma digitsOf_folded: "digitsOf (toLowerCase s) = List.map_filter digitValue s"
  by (induction s)
    (simp_all add: toLowerCase_def classify_folded [rule_format] digitValue_space
      split: option.splits)

lemma accepted_folded:
  "accepted b (toLowerCaseChar ch) \<longleftrightarrow>
     ch = CHR '' '' \<or> (\<exists>v. digitValue ch = Some v \<and> v < b)"
  by (auto simp: accepted_def classify_folded [rule_format] digitValue_space
      split: option.splits)

lemma bad_folded:
  "classify (toLowerCaseChar ch) = Bad \<longleftrightarrow> digitValue ch = None \<and> ch \<noteq> CHR '' ''"
  by (auto simp: classify_folded [rule_format] split: option.splits)

lemma digit_folded:
  "classify (toLowerCaseChar ch) = Digit v \<longleftrightarrow> digitValue ch = Some v"
  by (auto simp: classify_folded [rule_format] split: option.splits)

lemma trim_prefix: "\<forall>c\<in>set pre. isWhiteSpace c \<Longrightarrow> trim (pre @ s) = trim s"
  by (simp add: trim_def dropWhile_append2)

lemma trim_suffix:
  assumes "\<forall>c\<in>set post. isWhiteSpace c"
  shows "trim (s @ post) = trim s"
proof (cases "\<forall>c\<in>set s. isWhiteSpace c")
  case True
  with assms have "dropWhile isWhiteSpace (s @ post) = []" "dropWhile isWhiteSpace s = []"
    by auto
  then show ?thesis by (simp only: trim_def rev.simps dropWhile.simps)
next
  case False
  then obtain x where "x \<in> set s" "\<not> isWhiteSpace x" by blast
  then have "dropWhile isWhiteSpace (s @ post) = dropWhile isWhiteSpace s @ post"
    by (rule dropWhile_append1)
  moreover have "dropWhile isWhiteSpace (rev post @ u) = dropWhile isWhiteSpace u" for u
    using assms by (intro dropWhile_append2) simp
  ultimately show ?thesis by (simp add: trim_def)
qed

lemma trim_core:
  assumes "core = [] \<or> (\<not> isWhiteSpace (hd core) \<and> \<not> isWhiteSpace (last core))"
  shows "trim core = core"
proof (cases "core = []")
  case True
  then show ?thesis by (simp add: trim_def)
next
  case False
  with assms have h: "\<not> isWhiteSpace (hd core)" and l: "\<not> isWhiteSpace (last core)" by auto
  from False h have 1: "dropWhile isWhiteSpace core = core"
    by (cases core) simp_all
  from False have "butlast core @ [last core] = core" by simp
  then have "rev (butlast core @ [last core]) = rev core" by (rule arg_cong)
  then have r: "rev core = last core # rev (butlast core)" by simp
  have "dropWhile isWhiteSpace (last core # rev (butlast core)) = last core # rev (butlast core)"
    using l by simp
  then have 2: "dropWhile isWhiteSpace (rev core) = rev core" by (simp only: r)
  show ?thesis by (simp add: trim_def 1 2)
qed

lemma trim_decomposition:
  "\<exists>a b. s = a @ trim s @ b \<and> (\<forall>c\<in>set a. isWhiteSpace c) \<and> (\<forall>c\<in>set b. isWhiteSpace c)"
proof -
  let ?a = "takeWhile isWhiteSpace s"
  let ?u = "dropWhile isWhiteSpace s"
  let ?b = "rev (takeWhile isWhiteSpace (rev ?u))"
  have "rev ?u = takeWhile isWhiteSpace (rev ?u) @ dropWhile isWhiteSpace (rev ?u)" by simp
  then have "rev (rev ?u) = rev (takeWhile isWhiteSpace (rev ?u) @ dropWhile isWhiteSpace (rev ?u))"
    by (rule arg_cong)
  then have u: "?u = trim s @ ?b" unfolding trim_def rev_append rev_rev_ident .
  have "s = ?a @ ?u" by simp
  with u have "s = ?a @ trim s @ ?b" by simp
  moreover have "\<forall>c\<in>set ?a. isWhiteSpace c" by (auto dest: set_takeWhileD)
  moreover have "\<forall>c\<in>set ?b. isWhiteSpace c" by (auto dest: set_takeWhileD)
  ultimately show ?thesis by blast
qed

lemma trim_edges:
  "trim s = [] \<or> (\<not> isWhiteSpace (hd (trim s)) \<and> \<not> isWhiteSpace (last (trim s)))"
proof (cases "trim s = []")
  case True
  then show ?thesis by simp
next
  case False
  let ?u = "dropWhile isWhiteSpace s"
  let ?v = "dropWhile isWhiteSpace (rev ?u)"
  have t: "trim s = rev ?v" by (simp add: trim_def)
  with False have v: "?v \<noteq> []" by simp
  then have "\<not> isWhiteSpace (hd ?v)" by (rule hd_dropWhile)
  then have l: "\<not> isWhiteSpace (last (trim s))" using v by (simp add: t last_rev)
  have u: "?u \<noteq> []"
  proof
    assume e: "?u = []"
    have "?v = []" unfolding e by simp
    with v show False by simp
  qed
  then have hu: "\<not> isWhiteSpace (hd ?u)" by (rule hd_dropWhile)
  have "rev ?u = takeWhile isWhiteSpace (rev ?u) @ ?v" by simp
  then have "rev (rev ?u) = rev (takeWhile isWhiteSpace (rev ?u) @ ?v)" by (rule arg_cong)
  then have "?u = trim s @ rev (takeWhile isWhiteSpace (rev ?u))"
    unfolding t rev_append rev_rev_ident .
  then have "hd ?u = hd (trim s @ rev (takeWhile isWhiteSpace (rev ?u)))" by (rule arg_cong)
  also have "\<dots> = hd (trim s)" using False by (rule hd_append2)
  finally have "hd ?u = hd (trim s)" .
  with hu l show ?thesis by simp
qed

lemma firstOffending_folded:
  "firstOffending b (toLowerCase core) = Some c \<longleftrightarrow>
     (\<exists>a x r. core = a @ x # r
        \<and> (\<forall>y\<in>set a. accepted b (toLowerCaseChar y))
        \<and> \<not> accepted b (toLowerCaseChar x) \<and> classify (toLowerCaseChar x) = c)"
  (is "?L \<longleftrightarrow> ?R")
proof
  assume ?L
  then obtain pre ch post where h: "map toLowerCaseChar core = pre @ ch # post"
    "\<forall>x\<in>set pre. accepted b x" "\<not> accepted b ch" "classify ch = c"
    unfolding firstOffending_Some toLowerCase_def by blast
  from h(1) have "\<exists>us vs. core = us @ vs \<and> pre = map toLowerCaseChar us
      \<and> ch # post = map toLowerCaseChar vs"
    by (simp only: map_eq_append_conv)
  then obtain a rest where a: "core = a @ rest" "pre = map toLowerCaseChar a"
    "ch # post = map toLowerCaseChar rest"
    by (elim exE conjE)
  from a(3) obtain x r where r: "rest = x # r" "ch = toLowerCaseChar x" by (cases rest) auto
  have "core = a @ x # r" using a(1) r(1) by simp
  moreover have "\<forall>y\<in>set a. accepted b (toLowerCaseChar y)" using h(2) a(2) by simp
  ultimately show ?R using h(3,4) r(2) by blast
next
  assume ?R
  then obtain a x r where h: "core = a @ x # r" "\<forall>y\<in>set a. accepted b (toLowerCaseChar y)"
    "\<not> accepted b (toLowerCaseChar x)" "classify (toLowerCaseChar x) = c" by blast
  have "toLowerCase core = map toLowerCaseChar a @ toLowerCaseChar x # map toLowerCaseChar r"
    using h(1) by (simp add: toLowerCase_def)
  moreover have "\<forall>y\<in>set (map toLowerCaseChar a). accepted b y" using h(2) by simp
  ultimately show ?L unfolding firstOffending_Some using h(3,4) by blast
qed

lemma whiteSpace_subset:
  "set pre \<subseteq> set whiteSpaceChars \<Longrightarrow> \<forall>c\<in>set pre. isWhiteSpace c"
  using isWhiteSpace_table by blast

lemma trim_padded:
  assumes "set pre \<subseteq> set whiteSpaceChars" "set post \<subseteq> set whiteSpaceChars"
  shows "trim (pre @ core @ post) = trim core"
proof -
  have "trim (pre @ core @ post) = trim (core @ post)"
    using assms(1) by (intro trim_prefix whiteSpace_subset)
  also have "\<dots> = trim core"
    using assms(2) by (intro trim_suffix whiteSpace_subset)
  finally show ?thesis .
qed

lemma trim_exact:
  assumes "set pre \<subseteq> set whiteSpaceChars" "set post \<subseteq> set whiteSpaceChars"
    and "core = [] \<or> (hd core \<notin> set whiteSpaceChars \<and> last core \<notin> set whiteSpaceChars)"
  shows "trim (pre @ core @ post) = core"
proof -
  have "core = [] \<or> (\<not> isWhiteSpace (hd core) \<and> \<not> isWhiteSpace (last core))"
    using assms(3) isWhiteSpace_table by blast
  then have "trim core = core" by (rule trim_core)
  with trim_padded [OF assms(1,2)] show ?thesis by simp
qed

lemma whiteSpace_decomposition:
  "\<exists>pre core post. str = pre @ core @ post
     \<and> set pre \<subseteq> set whiteSpaceChars \<and> set post \<subseteq> set whiteSpaceChars
     \<and> (core = [] \<or> (hd core \<notin> set whiteSpaceChars \<and> last core \<notin> set whiteSpaceChars))"
proof -
  from trim_decomposition [of str] obtain a b where ab: "str = a @ trim str @ b"
    "\<forall>c\<in>set a. isWhiteSpace c" "\<forall>c\<in>set b. isWhiteSpace c" by blast
  have "set a \<subseteq> set whiteSpaceChars" "set b \<subseteq> set whiteSpaceChars"
    using ab(2,3) isWhiteSpace_table by blast+
  moreover have "trim str = [] \<or>
      (hd (trim str) \<notin> set whiteSpaceChars \<and> last (trim str) \<notin> set whiteSpaceChars)"
    using trim_edges [of str] isWhiteSpace_table by blast
  ultimately show ?thesis using ab(1) by blast
qed

lemma parseInBase_padded:
  assumes "set pre \<subseteq> set whiteSpaceChars" "set post \<subseteq> set whiteSpaceChars"
    and ok: "\<forall>ch\<in>set core. ch = CHR '' '' \<or> (\<exists>v. digitValue ch = Some v \<and> v < base)"
  shows "parseInBase (pre @ core @ post) base =
           Inr (foldl (\<lambda>result digit. result * base + digit) 0
                  (List.map_filter digitValue core))"
proof -
  let ?t = "trim core"
  have t: "trim (pre @ core @ post) = ?t" using assms(1,2) by (rule trim_padded)
  from trim_decomposition [of core] obtain a b where ab: "core = a @ ?t @ b"
    "\<forall>c\<in>set a. isWhiteSpace c" "\<forall>c\<in>set b. isWhiteSpace c" by blast
  have none: "digitValue c = None" if "isWhiteSpace c" for c
    using that isWhiteSpace_table whiteSpace_no_digit by blast
  have "List.map_filter digitValue a = []" "List.map_filter digitValue b = []"
    using ab(2,3) none by (simp_all add: map_filter_none)
  moreover have "List.map_filter digitValue core =
      List.map_filter digitValue a @ List.map_filter digitValue ?t @ List.map_filter digitValue b"
    using ab(1) map_filter_append_list [of digitValue a "?t @ b"]
      map_filter_append_list [of digitValue ?t b] by simp
  ultimately have d: "digitsOf (toLowerCase ?t) = List.map_filter digitValue core"
    by (simp add: digitsOf_folded)
  have "set ?t \<subseteq> set core"
  proof -
    have "set core = set a \<union> set ?t \<union> set b" using ab(1) by (metis set_append Un_assoc)
    then show ?thesis by blast
  qed
  with ok have "\<forall>ch\<in>set ?t. accepted base (toLowerCaseChar ch)"
    unfolding accepted_folded by blast
  then have "\<forall>ch\<in>set (toLowerCase ?t). accepted base ch"
    by (simp add: toLowerCase_def)
  then have "parseLoop base 0 (toLowerCase ?t) =
      Inr (foldl (\<lambda>r d. r * base + d) 0 (digitsOf (toLowerCase ?t)))"
    by (rule parseLoop_accepted)
  then show ?thesis by (simp add: parseInBase_def t d)
qed

text \<open>
  Claim C5. \<open>parseInBase\<close> trims the input, folds it to lower case, skips spaces, maps
  \<open>0\<close> to \<open>9\<close> to the values 0 to 9 and \<open>a\<close> to \<open>z\<close> to 10 to 35, and accumulates
  \<open>result * base + digitValue\<close> from the left. For every input \<open>pre @ core @ post\<close> where
  \<open>pre\<close> and \<open>post\<close> hold only characters that \<^verbatim>\<open>trim\<close> removes and every character of
  \<open>core\<close> is a space or a digit (in either case) of value below the base, the result is
  the positional value of the digit values of \<open>core\<close>, spaces left out.
  \<open>decode("ff", 16) = 255\<close>, \<open>decode("111", 2) = 7\<close>, \<open>decode("z", 36) = 35\<close>,
  \<open>decode("10", 10) = 10\<close>, and the string TAB, \<open>f\<close>, \<open>F\<close>, LF decodes to 255 in
  base 16.
\<close>

theorem parseInBase_positional:
  assumes "set pre \<subseteq> set whiteSpaceChars" "set post \<subseteq> set whiteSpaceChars"
    and "\<forall>ch\<in>set core. ch = CHR '' '' \<or> (\<exists>v. digitValue ch = Some v \<and> v < base)"
  shows "parseInBase (pre @ core @ post) base =
           Inr (foldl (\<lambda>result digit. result * base + digit) 0
                  (List.map_filter digitValue core))
         \<and> parseInBase (pre @ core @ post) base =
             Inr (positional base (List.map_filter digitValue core))
         \<and> map digitValue ''0123456789abcdefghijklmnopqrstuvwxyz'' = map Some [0..35]
         \<and> map digitValue ''ABCDEFGHIJKLMNOPQRSTUVWXYZ'' = map Some [10..35]
         \<and> map classify ''0123456789abcdefghijklmnopqrstuvwxyz'' = map Digit [0..35]
         \<and> classify CHR '' '' = Skip
         \<and> toLowerCase ''ABCDEFGHIJKLMNOPQRSTUVWXYZ'' = ''abcdefghijklmnopqrstuvwxyz''
         \<and> parseInBase ''ff'' 16 = Inr 255
         \<and> parseInBase ''111'' 2 = Inr 7
         \<and> parseInBase ''z'' 36 = Inr 35
         \<and> parseInBase ''10'' 10 = Inr 10
         \<and> parseInBase [CHR 0x09, CHR ''f'', CHR ''F'', CHR 0x0A] 16 = Inr 255"
proof -
  have 1: "parseInBase (pre @ core @ post) base =
           Inr (foldl (\<lambda>result digit. result * base + digit) 0
                  (List.map_filter digitValue core))"
    using assms by (rule parseInBase_padded)
  then have 2: "parseInBase (pre @ core @ post) base =
             Inr (positional base (List.map_filter digitValue core))"
    by (simp add: foldl_positional)
  have 3: "map digitValue ''0123456789abcdefghijklmnopqrstuvwxyz'' = map Some [0..35]"
    by code_simp
  have 4: "map digitValue ''ABCDEFGHIJKLMNOPQRSTUVWXYZ'' = map Some [10..35]"
    by code_simp
  have 5: "classify CHR '' '' = Skip" by code_simp
  have 6: "parseInBase ''ff'' 16 = Inr 255" by code_simp
  have 7: "parseInBase ''111'' 2 = Inr 7" by code_simp
  have 8: "parseInBase ''z'' 36 = Inr 35" by code_simp
  have 9: "parseInBase ''10'' 10 = Inr 10" by code_simp
  have 10: "parseInBase [CHR 0x09, CHR ''f'', CHR ''F'', CHR 0x0A] 16 = Inr 255" by code_simp
  from 1 2 3 4 5 6 7 8 9 10 classify_alphabet toLowerCase_upper show ?thesis by blast
qed

theorem parseInBase_positional_witness:
  "parseInBase [CHR 0x09, CHR '' '', CHR ''1'', CHR ''F'', CHR '' '', CHR ''e'', CHR 0x0A, CHR 0xA0] 16
     = Inr (1 * 16 ^ 2 + 15 * 16 ^ 1 + 14 * 16 ^ 0)"
proof -
  have a: "set [CHR 0x09] \<subseteq> set whiteSpaceChars" by code_simp
  have b: "set [CHR 0x0A, CHR 0xA0] \<subseteq> set whiteSpaceChars" by code_simp
  have c: "\<forall>ch\<in>set '' 1F e''. ch = CHR '' '' \<or> (\<exists>v. digitValue ch = Some v \<and> v < 16)"
  proof -
    have "digitValue CHR ''1'' = Some 1" "digitValue CHR ''F'' = Some 15"
      "digitValue CHR ''e'' = Some 14" by code_simp+
    then show ?thesis by simp
  qed
  have d: "List.map_filter digitValue '' 1F e'' = [1, 15, 14]" by code_simp
  have p: "positional 16 [1, 15, 14] = 1 * 16 ^ 2 + 15 * 16 ^ 1 + 14 * 16 ^ 0"
    by (simp add: positional_def lessThan_Suc numeral_3_eq_3)
  from parseInBase_positional [OF a b c]
  have "parseInBase ([CHR 0x09] @ '' 1F e'' @ [CHR 0x0A, CHR 0xA0]) 16 =
      Inr (positional 16 (List.map_filter digitValue '' 1F e''))"
    by (rule conjunct1 [OF conjunct2])
  with d p show ?thesis by simp
qed

section \<open>Which error the decoder raises\<close>

text \<open>
  The loop throws at the first character it cannot take. In base 16 the string \<open>g#\<close>
  holds the character \<open>#\<close>, which is outside \<open>[0-9a-z]\<close> and not a space, and yet does
  not fail with \<open>InvalidDigit\<close>; the string \<open>#g\<close> holds the digit \<open>g\<close> of value 16 and
  yet does not fail with \<open>DigitOutOfRange\<close>.
\<close>

theorem parseInBase_first_error_counterexample:
  "(2::int) \<le> 16 \<and> (16::int) \<le> 36
   \<and> toLowerCase (trim ''g#'') = ''g#''
   \<and> digitValue CHR ''#'' = None \<and> CHR ''#'' \<noteq> CHR '' ''
   \<and> parseInBase ''g#'' 16 \<noteq> Inl InvalidDigit
   \<and> parseInBase ''g#'' 16 = Inl DigitOutOfRange
   \<and> toLowerCase (trim ''#g'') = ''#g''
   \<and> digitValue CHR ''g'' = Some 16
   \<and> parseInBase ''#g'' 16 \<noteq> Inl DigitOutOfRange
   \<and> parseInBase ''#g'' 16 = Inl InvalidDigit"
  by code_simp

lemma parseInBase_error_kind:
  assumes pad: "set pre \<subseteq> set whiteSpaceChars" "set post \<subseteq> set whiteSpaceChars"
    and core: "core = [] \<or> (hd core \<notin> set whiteSpaceChars \<and> last core \<notin> set whiteSpaceChars)"
  shows "parseInBase (pre @ core @ post) base = Inl InvalidDigit \<longleftrightarrow>
      (\<exists>a ch r. core = a @ ch # r
         \<and> (\<forall>c\<in>set a. c = CHR '' '' \<or> (\<exists>v. digitValue c = Some v \<and> v < base))
         \<and> digitValue ch = None \<and> ch \<noteq> CHR '' '')"
    and "parseInBase (pre @ core @ post) base = Inl DigitOutOfRange \<longleftrightarrow>
      (\<exists>a ch r v. core = a @ ch # r
         \<and> (\<forall>c\<in>set a. c = CHR '' '' \<or> (\<exists>v. digitValue c = Some v \<and> v < base))
         \<and> digitValue ch = Some v \<and> base \<le> v)"
proof -
  let ?s = "toLowerCase core"
  have t: "trim (pre @ core @ post) = core" using pad core by (rule trim_exact)
  have res: "parseInBase (pre @ core @ post) base =
     (case firstOffending base ?s of
        None \<Rightarrow> Inr (foldl (\<lambda>r d. r * base + d) 0 (digitsOf ?s))
      | Some Bad \<Rightarrow> Inl InvalidDigit
      | Some _ \<Rightarrow> Inl DigitOutOfRange)"
    unfolding parseInBase_def t by (rule parseLoop_first)
  have noskip: "firstOffending base ?s \<noteq> Some Skip"
    by (auto simp: firstOffending_Some accepted_def)
  have inv: "parseInBase (pre @ core @ post) base = Inl InvalidDigit \<longleftrightarrow>
      firstOffending base ?s = Some Bad"
    unfolding res by (auto split: option.splits charClass.splits)
  have oor: "parseInBase (pre @ core @ post) base = Inl DigitOutOfRange \<longleftrightarrow>
      (\<exists>v. firstOffending base ?s = Some (Digit v))"
    using noskip unfolding res by (auto split: option.splits charClass.splits)
  have fo: "firstOffending base ?s = Some c \<longleftrightarrow>
      (\<exists>a x r. core = a @ x # r
         \<and> (\<forall>y\<in>set a. y = CHR '' '' \<or> (\<exists>v. digitValue y = Some v \<and> v < base))
         \<and> \<not> (x = CHR '' '' \<or> (\<exists>v. digitValue x = Some v \<and> v < base))
         \<and> classify (toLowerCaseChar x) = c)" for c
    unfolding firstOffending_folded accepted_folded by (rule refl)
  show "parseInBase (pre @ core @ post) base = Inl InvalidDigit \<longleftrightarrow>
      (\<exists>a ch r. core = a @ ch # r
         \<and> (\<forall>c\<in>set a. c = CHR '' '' \<or> (\<exists>v. digitValue c = Some v \<and> v < base))
         \<and> digitValue ch = None \<and> ch \<noteq> CHR '' '')"
    (is "?L1 \<longleftrightarrow> ?R1")
  proof
    assume ?L1
    then have "firstOffending base ?s = Some Bad" by (simp only: inv)
    then obtain a x r where h: "core = a @ x # r"
      "\<forall>y\<in>set a. y = CHR '' '' \<or> (\<exists>v. digitValue y = Some v \<and> v < base)"
      "classify (toLowerCaseChar x) = Bad"
      unfolding fo by (elim exE conjE)
    from h(3) have "digitValue x = None \<and> x \<noteq> CHR '' ''" by (rule bad_folded [THEN iffD1])
    with h(1,2) show ?R1 by (intro exI [of _ a] exI [of _ x] exI [of _ r] conjI) simp_all
  next
    assume ?R1
    then obtain a x r where h: "core = a @ x # r"
      "\<forall>y\<in>set a. y = CHR '' '' \<or> (\<exists>v. digitValue y = Some v \<and> v < base)"
      "digitValue x = None" "x \<noteq> CHR '' ''"
      by (elim exE conjE)
    from h(3,4) have "digitValue x = None \<and> x \<noteq> CHR '' ''" by (rule conjI)
    then have b: "classify (toLowerCaseChar x) = Bad" by (rule bad_folded [THEN iffD2])
    from h(3,4) have n: "\<not> (x = CHR '' '' \<or> (\<exists>v. digitValue x = Some v \<and> v < base))" by simp
    have "firstOffending base ?s = Some Bad"
      unfolding fo using h(1,2) n b
      by (intro exI [of _ a] exI [of _ x] exI [of _ r] conjI)
    then show ?L1 by (simp only: inv)
  qed
  show "parseInBase (pre @ core @ post) base = Inl DigitOutOfRange \<longleftrightarrow>
      (\<exists>a ch r v. core = a @ ch # r
         \<and> (\<forall>c\<in>set a. c = CHR '' '' \<or> (\<exists>v. digitValue c = Some v \<and> v < base))
         \<and> digitValue ch = Some v \<and> base \<le> v)"
    (is "?L2 \<longleftrightarrow> ?R2")
  proof
    assume ?L2
    then obtain w where "firstOffending base ?s = Some (Digit w)" unfolding oor by (elim exE)
    then obtain a x r where h: "core = a @ x # r"
      "\<forall>y\<in>set a. y = CHR '' '' \<or> (\<exists>v. digitValue y = Some v \<and> v < base)"
      "\<not> (x = CHR '' '' \<or> (\<exists>v. digitValue x = Some v \<and> v < base))"
      "classify (toLowerCaseChar x) = Digit w"
      unfolding fo by (elim exE conjE)
    from h(4) have d: "digitValue x = Some w" by (rule digit_folded [THEN iffD1])
    with h(3) have "base \<le> w" by simp
    with h(1,2) d show ?R2
      by (intro exI [of _ a] exI [of _ x] exI [of _ r] exI [of _ w] conjI)
  next
    assume ?R2
    then obtain a x r w where h: "core = a @ x # r"
      "\<forall>y\<in>set a. y = CHR '' '' \<or> (\<exists>v. digitValue y = Some v \<and> v < base)"
      "digitValue x = Some w" "base \<le> w"
      by (elim exE conjE)
    from h(3) have c: "classify (toLowerCaseChar x) = Digit w" by (rule digit_folded [THEN iffD2])
    from h(3) have "x \<noteq> CHR '' ''" using digitValue_space by auto
    with h(3,4) have n: "\<not> (x = CHR '' '' \<or> (\<exists>v. digitValue x = Some v \<and> v < base))"
      by simp
    have "firstOffending base ?s = Some (Digit w)"
      unfolding fo using h(1,2) n c
      by (intro exI [of _ a] exI [of _ x] exI [of _ r] conjI)
    then show ?L2 unfolding oor by (rule exI)
  qed
qed

lemma first_offender:
  assumes "\<exists>ch\<in>set core. \<not> Q ch"
  shows "\<exists>a ch r. core = a @ ch # r \<and> (\<forall>c\<in>set a. Q c) \<and> \<not> Q ch"
  using assms
proof (induction core)
  case Nil
  then show ?case by simp
next
  case (Cons x xs)
  show ?case
  proof (cases "Q x")
    case False
    then have "x # xs = [] @ x # xs \<and> (\<forall>c\<in>set []. Q c) \<and> \<not> Q x" by simp
    then show ?thesis by blast
  next
    case True
    with Cons.prems have "\<exists>ch\<in>set xs. \<not> Q ch" by auto
    then obtain a ch r where h: "xs = a @ ch # r" "\<forall>c\<in>set a. Q c" "\<not> Q ch"
      using Cons.IH by blast
    then have "x # xs = (x # a) @ ch # r \<and> (\<forall>c\<in>set (x # a). Q c) \<and> \<not> Q ch"
      using True by simp
    then show ?thesis by blast
  qed
qed

text \<open>
  Claim C6, amended. Every input is \<open>pre @ core @ post\<close>, where \<open>pre\<close> and \<open>post\<close> hold
  only characters that \<^verbatim>\<open>trim\<close> removes and \<open>core\<close>, the trimmed string, neither begins
  nor ends with one. For every base, \<open>parseInBase\<close> fails with \<open>InvalidDigit\<close> exactly when
  the first character of \<open>core\<close> that is neither a space nor a digit below the base is
  outside \<open>[0-9a-zA-Z]\<close>, that is, outside \<open>[0-9a-z]\<close> once folded to lower case, and
  with \<open>DigitOutOfRange\<close> exactly when that first character is a digit of value at least
  the base. When no digit is out of range, it fails with \<open>InvalidDigit\<close> exactly when some
  character is outside the alphabet and not a space; when no character is outside the
  alphabet, it fails with \<open>DigitOutOfRange\<close> exactly when some digit has a value of at
  least the base. \<open>decode("1g", 16)\<close> fails with \<open>DigitOutOfRange\<close>;
  \<open>decode("1#", 16)\<close>, \<open>decode("1@2", 10)\<close> and the string \<open>1\<close>, TAB, \<open>2\<close> in base 10
  fail with \<open>InvalidDigit\<close>.
\<close>

theorem parseInBase_first_error:
  assumes "set pre \<subseteq> set whiteSpaceChars" "set post \<subseteq> set whiteSpaceChars"
    and "core = [] \<or> (hd core \<notin> set whiteSpaceChars \<and> last core \<notin> set whiteSpaceChars)"
  shows
  "(parseInBase (pre @ core @ post) base = Inl InvalidDigit \<longleftrightarrow>
      (\<exists>a ch r. core = a @ ch # r
         \<and> (\<forall>c\<in>set a. c = CHR '' '' \<or> (\<exists>v. digitValue c = Some v \<and> v < base))
         \<and> digitValue ch = None \<and> ch \<noteq> CHR '' ''))
   \<and> (parseInBase (pre @ core @ post) base = Inl DigitOutOfRange \<longleftrightarrow>
      (\<exists>a ch r v. core = a @ ch # r
         \<and> (\<forall>c\<in>set a. c = CHR '' '' \<or> (\<exists>v. digitValue c = Some v \<and> v < base))
         \<and> digitValue ch = Some v \<and> base \<le> v))
   \<and> ((\<forall>ch\<in>set core. \<forall>v. digitValue ch = Some v \<longrightarrow> v < base) \<longrightarrow>
        (parseInBase (pre @ core @ post) base = Inl InvalidDigit \<longleftrightarrow>
           (\<exists>ch\<in>set core. digitValue ch = None \<and> ch \<noteq> CHR '' '')))
   \<and> ((\<forall>ch\<in>set core. digitValue ch \<noteq> None \<or> ch = CHR '' '') \<longrightarrow>
        (parseInBase (pre @ core @ post) base = Inl DigitOutOfRange \<longleftrightarrow>
           (\<exists>ch\<in>set core. \<exists>v. digitValue ch = Some v \<and> base \<le> v)))
   \<and> (\<exists>pre' core' post'. str = pre' @ core' @ post'
        \<and> set pre' \<subseteq> set whiteSpaceChars \<and> set post' \<subseteq> set whiteSpaceChars
        \<and> (core' = [] \<or> (hd core' \<notin> set whiteSpaceChars \<and> last core' \<notin> set whiteSpaceChars)))
   \<and> parseInBase ''1g'' 16 = Inl DigitOutOfRange
   \<and> parseInBase ''1#'' 16 = Inl InvalidDigit
   \<and> parseInBase ''1@2'' 10 = Inl InvalidDigit
   \<and> parseInBase [CHR ''1'', CHR 0x09, CHR ''2''] 10 = Inl InvalidDigit"
proof -
  let ?ok = "\<lambda>c. c = CHR '' '' \<or> (\<exists>v. digitValue c = Some v \<and> v < base)"
  note k = parseInBase_error_kind [OF assms, of base]
  have 3: "parseInBase (pre @ core @ post) base = Inl InvalidDigit \<longleftrightarrow>
           (\<exists>ch\<in>set core. digitValue ch = None \<and> ch \<noteq> CHR '' '')"
    if h: "\<forall>ch\<in>set core. \<forall>v. digitValue ch = Some v \<longrightarrow> v < base"
  proof
    assume "parseInBase (pre @ core @ post) base = Inl InvalidDigit"
    then have "\<exists>a ch r. core = a @ ch # r \<and> (\<forall>c\<in>set a. ?ok c)
        \<and> digitValue ch = None \<and> ch \<noteq> CHR '' ''"
      by (rule k(1) [THEN iffD1])
    then obtain a ch r where "core = a @ ch # r" "digitValue ch = None \<and> ch \<noteq> CHR '' ''"
      by (elim exE conjE) simp
    then show "\<exists>ch\<in>set core. digitValue ch = None \<and> ch \<noteq> CHR '' ''" by auto
  next
    assume "\<exists>ch\<in>set core. digitValue ch = None \<and> ch \<noteq> CHR '' ''"
    then obtain x where x: "x \<in> set core" "digitValue x = None" "x \<noteq> CHR '' ''"
      by (elim bexE conjE)
    from x(2,3) have "\<not> ?ok x" by simp
    with x(1) have "\<exists>ch\<in>set core. \<not> ?ok ch" by (rule rev_bexI)
    then have "\<exists>a ch r. core = a @ ch # r \<and> (\<forall>c\<in>set a. ?ok c) \<and> \<not> ?ok ch"
      by (rule first_offender)
    then obtain a ch r where d: "core = a @ ch # r" "\<forall>c\<in>set a. ?ok c" "\<not> ?ok ch"
      by (elim exE conjE)
    from d(1) have "ch \<in> set core" by simp
    with h d(3) have "digitValue ch = None \<and> ch \<noteq> CHR '' ''"
      by (cases "digitValue ch") auto
    with d(1,2) have "\<exists>a ch r. core = a @ ch # r \<and> (\<forall>c\<in>set a. ?ok c)
        \<and> digitValue ch = None \<and> ch \<noteq> CHR '' ''"
      by (intro exI [of _ a] exI [of _ ch] exI [of _ r] conjI) simp_all
    then show "parseInBase (pre @ core @ post) base = Inl InvalidDigit"
      by (rule k(1) [THEN iffD2])
  qed
  have 4: "parseInBase (pre @ core @ post) base = Inl DigitOutOfRange \<longleftrightarrow>
           (\<exists>ch\<in>set core. \<exists>v. digitValue ch = Some v \<and> base \<le> v)"
    if h: "\<forall>ch\<in>set core. digitValue ch \<noteq> None \<or> ch = CHR '' ''"
  proof
    assume "parseInBase (pre @ core @ post) base = Inl DigitOutOfRange"
    then have "\<exists>a ch r v. core = a @ ch # r \<and> (\<forall>c\<in>set a. ?ok c)
        \<and> digitValue ch = Some v \<and> base \<le> v"
      by (rule k(2) [THEN iffD1])
    then obtain a ch r v where "core = a @ ch # r" "digitValue ch = Some v \<and> base \<le> v"
      by (elim exE conjE) simp
    then show "\<exists>ch\<in>set core. \<exists>v. digitValue ch = Some v \<and> base \<le> v" by auto
  next
    assume "\<exists>ch\<in>set core. \<exists>v. digitValue ch = Some v \<and> base \<le> v"
    then obtain x w where x: "x \<in> set core" "digitValue x = Some w" "base \<le> w"
      by (elim bexE exE conjE)
    from x(2) have "x \<noteq> CHR '' ''" using digitValue_space by auto
    with x(2,3) have "\<not> ?ok x" by simp
    with x(1) have "\<exists>ch\<in>set core. \<not> ?ok ch" by (rule rev_bexI)
    then have "\<exists>a ch r. core = a @ ch # r \<and> (\<forall>c\<in>set a. ?ok c) \<and> \<not> ?ok ch"
      by (rule first_offender)
    then obtain a ch r where d: "core = a @ ch # r" "\<forall>c\<in>set a. ?ok c" "\<not> ?ok ch"
      by (elim exE conjE)
    from d(1) have "ch \<in> set core" by simp
    with h d(3) obtain v where "digitValue ch = Some v \<and> base \<le> v"
      by (cases "digitValue ch") auto
    with d(1,2) have "\<exists>a ch r v. core = a @ ch # r \<and> (\<forall>c\<in>set a. ?ok c)
        \<and> digitValue ch = Some v \<and> base \<le> v"
      by (intro exI [of _ a] exI [of _ ch] exI [of _ r] exI [of _ v] conjI) simp_all
    then show "parseInBase (pre @ core @ post) base = Inl DigitOutOfRange"
      by (rule k(2) [THEN iffD2])
  qed
  have 5: "parseInBase ''1g'' 16 = Inl DigitOutOfRange" by code_simp
  have 6: "parseInBase ''1#'' 16 = Inl InvalidDigit" by code_simp
  have 7: "parseInBase ''1@2'' 10 = Inl InvalidDigit" by code_simp
  have 8: "parseInBase [CHR ''1'', CHR 0x09, CHR ''2''] 10 = Inl InvalidDigit" by code_simp
  show ?thesis
  proof (intro conjI impI)
    show "\<exists>pre' core' post'. str = pre' @ core' @ post'
        \<and> set pre' \<subseteq> set whiteSpaceChars \<and> set post' \<subseteq> set whiteSpaceChars
        \<and> (core' = [] \<or> (hd core' \<notin> set whiteSpaceChars \<and> last core' \<notin> set whiteSpaceChars))"
      by (rule whiteSpace_decomposition)
  qed (rule k 3 4 5 6 7 8, assumption?)+
qed

theorem parseInBase_first_error_witness:
  "parseInBase [CHR 0x09, CHR ''7'', CHR '' '', CHR ''@'', CHR ''g'', CHR 0x0A] 16
     = Inl InvalidDigit
   \<and> parseInBase [CHR 0x0D, CHR ''7'', CHR ''G''] 16 = Inl DigitOutOfRange"
proof -
  have p1: "set [CHR 0x09] \<subseteq> set whiteSpaceChars" by code_simp
  have q1: "set [CHR 0x0A] \<subseteq> set whiteSpaceChars" by code_simp
  have c1: "''7 @g'' = [] \<or> (hd ''7 @g'' \<notin> set whiteSpaceChars \<and> last ''7 @g'' \<notin> set whiteSpaceChars)"
    by code_simp
  have d1: "''7 @g'' = ''7 '' @ CHR ''@'' # ''g''" by simp
  have v7: "digitValue CHR ''7'' = Some 7" by code_simp
  have a1: "\<forall>c\<in>set ''7 ''. c = CHR '' '' \<or> (\<exists>v. digitValue c = Some v \<and> v < 16)"
    using v7 by simp
  have b1: "digitValue CHR ''@'' = None \<and> CHR ''@'' \<noteq> CHR '' ''" by code_simp
  note t1 = parseInBase_first_error [OF p1 q1 c1, of 16 "[]"]
  have "\<exists>a ch r. ''7 @g'' = a @ ch # r
         \<and> (\<forall>c\<in>set a. c = CHR '' '' \<or> (\<exists>v. digitValue c = Some v \<and> v < 16))
         \<and> digitValue ch = None \<and> ch \<noteq> CHR '' ''"
    using d1 a1 b1 by (intro exI [of _ "''7 ''"] exI [of _ "CHR ''@''"] exI [of _ "''g''"]) simp
  then have 1: "parseInBase ([CHR 0x09] @ ''7 @g'' @ [CHR 0x0A]) 16 = Inl InvalidDigit"
    by (rule t1 [THEN conjunct1, THEN iffD2])
  have p2: "set [CHR 0x0D] \<subseteq> set whiteSpaceChars" by code_simp
  have q2: "set [] \<subseteq> set whiteSpaceChars" by simp
  have c2: "''7G'' = [] \<or> (hd ''7G'' \<notin> set whiteSpaceChars \<and> last ''7G'' \<notin> set whiteSpaceChars)"
    by code_simp
  have vG: "digitValue CHR ''G'' = Some 16" by code_simp
  have n2: "\<forall>ch\<in>set ''7G''. digitValue ch \<noteq> None \<or> ch = CHR '' ''" using v7 vG by simp
  have e2: "\<exists>ch\<in>set ''7G''. \<exists>v. digitValue ch = Some v \<and> 16 \<le> v" using vG by simp
  note t2 = parseInBase_first_error [OF p2 q2 c2, of 16 "[]"]
  have 2: "parseInBase ([CHR 0x0D] @ ''7G'' @ []) 16 = Inl DigitOutOfRange"
    using t2 [THEN conjunct2, THEN conjunct2, THEN conjunct2, THEN conjunct1, THEN mp, OF n2] e2
    by (rule iffD2)
  from 1 2 show ?thesis by simp
qed

section \<open>Bases outside 2 to 36, and blank strings\<close>

text \<open>
  Claim C9. \<open>parseInBase\<close> does not check the base: for a base outside \<open>[2, 36]\<close> and
  a string whose digits are all below the base it returns the same positional accumulation.
  \<open>parseInBase("0", 1)\<close> is 0 and \<open>parseInBase("z", 37)\<close> is 35.
\<close>

theorem parseInBase_any_base:
  assumes "\<not> (2 \<le> base \<and> base \<le> 36)"
    and "\<forall>ch\<in>set (toLowerCase (trim str)). accepted base ch"
  shows "parseInBase str base = Inr (positional base (digitsOf (toLowerCase (trim str))))
         \<and> parseInBase ''0'' 1 = Inr 0
         \<and> parseInBase ''z'' 37 = Inr 35"
proof -
  have "parseInBase ''0'' 1 = Inr 0" by code_simp
  moreover have "parseInBase ''z'' 37 = Inr 35" by code_simp
  ultimately show ?thesis
    using parseInBase_accepted(2) [OF assms(2)] by simp
qed

theorem parseInBase_any_base_witness:
  "(36::int) < 40 \<and> parseInBase ''Z 1'' 40 = Inr (35 * 40 + 1)"
proof -
  have r: "\<not> (2 \<le> (40::int) \<and> (40::int) \<le> 36)" by simp
  have h: "\<forall>ch\<in>set (toLowerCase (trim ''Z 1'')). accepted 40 ch" by code_simp
  have d: "digitsOf (toLowerCase (trim ''Z 1'')) = [35, 1]" by code_simp
  have p: "positional 40 [35, 1] = 35 * 40 + 1"
    by (simp add: positional_def lessThan_Suc numeral_2_eq_2)
  from parseInBase_any_base [OF r h]
  have "parseInBase ''Z 1'' 40 = Inr (positional 40 (digitsOf (toLowerCase (trim ''Z 1''))))"
    by (rule conjunct1)
  with d p show ?thesis by simp
qed

text \<open>
  Claim C10. For every base, \<open>parseInBase\<close> returns 0 on a string that is empty or holds
  only spaces.
\<close>

theorem parseInBase_blank:
  assumes "\<forall>ch\<in>set str. ch = CHR '' ''"
  shows "parseInBase str base = Inr 0"
  using assms by (simp add: parseInBase_def trim_spaces toLowerCase_def)

theorem parseInBase_blank_witness:
  "parseInBase ''   '' 10 = Inr 0 \<and> parseInBase [] 1 = Inr 0"
proof -
  have h: "\<forall>ch\<in>set ''   ''. ch = CHR '' ''" by simp
  have e: "\<forall>ch\<in>set ([] :: string). ch = CHR '' ''" by simp
  from parseInBase_blank [OF h, of 10] parseInBase_blank [OF e, of 1] show ?thesis by simp
qed

section \<open>The inner loop\<close>

text \<open>
  The pair the inner loop returns is the pair of the two products of factors, divided by
  a common positive integer; without the reduction it is the pair of products itself.
\<close>

lemma weightStep_scale:
  "\<exists>c>0. fst (weightStep P i (n, d) j) * c = n * numFactor P i j
        \<and> snd (weightStep P i (n, d) j) * c = d * denFactor P i j"
proof (cases "j = i")
  case True
  then have "fst (weightStep P i (n, d) j) * 1 = n * numFactor P i j
     \<and> snd (weightStep P i (n, d) j) * 1 = d * denFactor P i j"
    by (simp add: weightStep_def numFactor_def denFactor_def)
  then show ?thesis by (intro exI [of _ 1]) simp
next
  case False
  let ?num = "n * (- pt_x (P ! j))"
  let ?den = "d * (pt_x (P ! i) - pt_x (P ! j))"
  let ?g = "gcd ?num ?den"
  show ?thesis
  proof (cases "?g > 1")
    case True
    have "?num sdiv ?g = ?num div ?g" and "?den sdiv ?g = ?den div ?g"
      by (rule sdiv_exact, rule gcd_dvd1, rule sdiv_exact, rule gcd_dvd2)
    moreover have "weightStep P i (n, d) j = (?num sdiv ?g, ?den sdiv ?g)"
      unfolding weightStep_def Let_def bigGcd_gcd fst_conv snd_conv
      using False True by (simp only: if_False if_True)
    ultimately have w: "weightStep P i (n, d) j = (?num div ?g, ?den div ?g)"
      by simp
    have "(?num div ?g) * ?g = ?num" and "(?den div ?g) * ?g = ?den"
      by (rule dvd_div_mult_self, rule gcd_dvd1, rule dvd_div_mult_self, rule gcd_dvd2)
    then have "fst (weightStep P i (n, d) j) * ?g = n * numFactor P i j
       \<and> snd (weightStep P i (n, d) j) * ?g = d * denFactor P i j"
      using False unfolding w fst_conv snd_conv numFactor_def denFactor_def
      by (simp only: if_False)
    moreover have "0 < ?g" using True by linarith
    ultimately show ?thesis by blast
  next
    case g: False
    have "weightStep P i (n, d) j = (?num, ?den)"
      using False g by (simp add: weightStep_def Let_def bigGcd_gcd)
    then have "fst (weightStep P i (n, d) j) * 1 = n * numFactor P i j
       \<and> snd (weightStep P i (n, d) j) * 1 = d * denFactor P i j"
      using False by (simp add: numFactor_def denFactor_def)
    then show ?thesis by (intro exI [of _ 1]) simp
  qed
qed

lemma weightLoop_scale:
  "\<exists>c>0. fst (foldl (weightStep P i) (n, d) js) * c = n * prod_list (map (numFactor P i) js)
        \<and> snd (foldl (weightStep P i) (n, d) js) * c = d * prod_list (map (denFactor P i) js)"
proof (induction js arbitrary: n d)
  case Nil
  have "(0::int) < 1" by simp
  then show ?case by (intro exI [of _ 1]) simp
next
  case (Cons j js)
  obtain n' d' where st: "weightStep P i (n, d) j = (n', d')" by (cases "weightStep P i (n, d) j")
  from weightStep_scale [of P i n d j] st obtain c1 where c1: "0 < c1"
    "n' * c1 = n * numFactor P i j" "d' * c1 = d * denFactor P i j" by auto
  from Cons.IH [of n' d'] obtain c2 where c2: "0 < c2"
    "fst (foldl (weightStep P i) (n', d') js) * c2 = n' * prod_list (map (numFactor P i) js)"
    "snd (foldl (weightStep P i) (n', d') js) * c2 = d' * prod_list (map (denFactor P i) js)"
    by auto
  let ?r = "foldl (weightStep P i) (n', d') js"
  have "fst ?r * (c2 * c1) = (fst ?r * c2) * c1" by simp
  also have "\<dots> = (n' * prod_list (map (numFactor P i) js)) * c1" by (simp only: c2(2))
  also have "\<dots> = (n' * c1) * prod_list (map (numFactor P i) js)" by simp
  also have "\<dots> = (n * numFactor P i j) * prod_list (map (numFactor P i) js)"
    by (simp only: c1(2))
  finally have 1: "fst ?r * (c2 * c1) = n * prod_list (map (numFactor P i) (j # js))"
    by (simp add: mult.assoc)
  have "snd ?r * (c2 * c1) = (snd ?r * c2) * c1" by simp
  also have "\<dots> = (d' * prod_list (map (denFactor P i) js)) * c1" by (simp only: c2(3))
  also have "\<dots> = (d' * c1) * prod_list (map (denFactor P i) js)" by simp
  also have "\<dots> = (d * denFactor P i j) * prod_list (map (denFactor P i) js)"
    by (simp only: c1(3))
  finally have 2: "snd ?r * (c2 * c1) = d * prod_list (map (denFactor P i) (j # js))"
    by (simp add: mult.assoc)
  have "0 < c2 * c1" using c1(1) c2(1) by simp
  with 1 2 st show ?case by (intro exI [of _ "c2 * c1"]) simp
qed

lemma weightLoop_noreduce:
  "foldl (weightStep_noreduce P i) (n, d) js =
     (n * prod_list (map (numFactor P i) js), d * prod_list (map (denFactor P i) js))"
  by (induction js arbitrary: n d)
    (simp_all add: weightStep_noreduce_def numFactor_def denFactor_def Let_def)

lemma basisWeight_noreduce_eq:
  "basisWeight_noreduce P i =
     (prod_list (map (numFactor P i) [0..<length P]), prod_list (map (denFactor P i) [0..<length P]))"
  by (simp add: basisWeight_noreduce_def weightLoop_noreduce)

lemma basisWeight_scale:
  "\<exists>c>0. fst (basisWeight P i) * c = prod_list (map (numFactor P i) [0..<length P])
        \<and> snd (basisWeight P i) * c = prod_list (map (denFactor P i) [0..<length P])"
  using weightLoop_scale [of P i 1 1 "[0..<length P]"] by (simp add: basisWeight_def)

lemma newFraction_scale:
  assumes "0 < c"
  shows "newFraction (n * c) (d * c) = newFraction n d"
proof (cases "d = 0")
  case True
  then show ?thesis by (simp add: newFraction_zero)
next
  case False
  have g: "gcd (n * c) (d * c) = gcd n d * c"
    using assms gcd_mult_distrib_int [of c n d] by (simp add: mult.commute)
  have s: "sgn (d * c) = sgn d" using assms by (simp add: sgn_mult)
  have a: "\<bar>d * c\<bar> = \<bar>d\<bar> * c" using assms by (simp add: abs_mult)
  have "d * c \<noteq> 0" using False assms by simp
  then have "newFraction (n * c) (d * c) =
      Inr \<lparr>fr_n = (sgn d * n * c) div (gcd n d * c), fr_d = (\<bar>d\<bar> * c) div (gcd n d * c)\<rparr>"
    by (simp add: newFraction_eq g s a mult.assoc)
  also have "\<dots> = Inr \<lparr>fr_n = (sgn d * n) div gcd n d, fr_d = \<bar>d\<bar> div gcd n d\<rparr>"
    using assms by simp
  also have "\<dots> = newFraction n d" using False by (simp add: newFraction_eq)
  finally show ?thesis .
qed

lemma term_noreduce:
  "(case basisWeight P i of (num, den) \<Rightarrow> newFraction (y * num) den) =
   (case basisWeight_noreduce P i of (num, den) \<Rightarrow> newFraction (y * num) den)"
proof -
  obtain n' d' where b: "basisWeight P i = (n', d')" by (cases "basisWeight P i")
  from basisWeight_scale [of P i] b obtain c where c: "0 < c"
    "n' * c = prod_list (map (numFactor P i) [0..<length P])"
    "d' * c = prod_list (map (denFactor P i) [0..<length P])" by auto
  have "newFraction (y * n') d' = newFraction ((y * n') * c) (d' * c)"
    using newFraction_scale [OF c(1)] by simp
  also have "\<dots> = newFraction (y * (n' * c)) (d' * c)" by (simp add: mult.assoc)
  finally show ?thesis
    by (simp add: b basisWeight_noreduce_eq c(2,3))
qed

lemma sumLoop_noreduce_eq: "sumLoop P js s = sumLoop_noreduce P js s"
proof (induction js arbitrary: s)
  case Nil
  show ?case by simp
next
  case (Cons i js)
  show ?case
    using term_noreduce [where P = P and i = i and y = "pt_y (P ! i)"]
    by (simp add: Let_def Cons.IH split: prod.splits sum.splits)
qed

lemma basisWeight_den_zero_iff:
  "snd (basisWeight P i) = 0 \<longleftrightarrow> (\<exists>j<length P. j \<noteq> i \<and> pt_x (P ! j) = pt_x (P ! i))"
proof -
  have d0: "denFactor P i j = 0 \<longleftrightarrow> j \<noteq> i \<and> pt_x (P ! j) = pt_x (P ! i)" for j
    by (auto simp: denFactor_def)
  from basisWeight_scale [of P i] obtain c where c: "0 < c"
    "snd (basisWeight P i) * c = prod_list (map (denFactor P i) [0..<length P])" by auto
  have "snd (basisWeight P i) = 0 \<longleftrightarrow> snd (basisWeight P i) * c = 0"
    using c(1) by simp
  also have "\<dots> \<longleftrightarrow> (0 \<in> set (map (denFactor P i) [0..<length P]))"
    unfolding c(2) by (rule prod_list_zero_iff)
  also have "\<dots> \<longleftrightarrow> (\<exists>j<length P. denFactor P i j = 0)"
    by force
  also have "\<dots> \<longleftrightarrow> (\<exists>j<length P. j \<noteq> i \<and> pt_x (P ! j) = pt_x (P ! i))"
    using d0 by simp
  finally show ?thesis .
qed

lemma fromBigInt_zero: "fromBigInt 0 = Inr \<lparr>fr_n = 0, fr_d = 1\<rparr>"
  by (simp add: fromBigInt_def newFraction_eq)

lemma fraction_inv_den: "fraction_inv f \<Longrightarrow> fr_d f \<noteq> 0"
  by (simp add: fraction_inv_def)

lemma sumLoop_duplicate:
  assumes "fr_d s \<noteq> 0" "\<exists>i\<in>set js. snd (basisWeight P i) = 0"
  shows "sumLoop P js s = Inl ZeroDenominator"
  using assms
proof (induction js arbitrary: s)
  case Nil
  then show ?case by simp
next
  case (Cons i js)
  obtain num den where b: "basisWeight P i = (num, den)" by (cases "basisWeight P i")
  show ?case
  proof (cases "den = 0")
    case True
    then show ?thesis by (simp add: b newFraction_zero)
  next
    case False
    then obtain t where t: "newFraction (pt_y (P ! i) * num) den = Inr t"
      using newFraction_Inr_iff by blast
    then have td: "fr_d t \<noteq> 0" by (intro fraction_inv_den newFraction_inv)
    with Cons.prems(1) obtain s' where s': "add s t = Inr s'" using add_Inr by blast
    then have sd: "fr_d s' \<noteq> 0" by (intro fraction_inv_den add_inv)
    from Cons.prems(2) False b have "\<exists>i\<in>set js. snd (basisWeight P i) = 0" by auto
    with sd have "sumLoop P js s' = Inl ZeroDenominator" by (rule Cons.IH)
    then show ?thesis by (simp add: b t s')
  qed
qed

lemma reconstructAtZero_duplicate:
  assumes "\<not> distinct (map pt_x (slice0 points k))"
  shows "reconstructAtZero points k = Inl ZeroDenominator"
proof -
  let ?P = "slice0 points k"
  from assms obtain i j where ij: "i < length ?P" "j < length ?P" "i \<noteq> j"
    "pt_x (?P ! i) = pt_x (?P ! j)"
    by (auto simp: distinct_conv_nth)
  then have "snd (basisWeight ?P i) = 0"
    unfolding basisWeight_den_zero_iff by (intro exI [of _ j]) simp
  with ij(1) have "\<exists>i\<in>set [0..<length ?P]. snd (basisWeight ?P i) = 0" by auto
  then have "sumLoop ?P [0..<length ?P] \<lparr>fr_n = 0, fr_d = 1\<rparr> = Inl ZeroDenominator"
    by (intro sumLoop_duplicate) simp
  then show ?thesis by (simp add: reconstructAtZero_def fromBigInt_zero Let_def)
qed

section \<open>Duplicate x-coordinates\<close>

text \<open>
  Claim C4. The constructor fails with \<open>ZeroDenominator\<close> on a zero denominator, and
  \<open>reconstructAtZero\<close> fails with \<open>ZeroDenominator\<close> on every point list in which two
  of the first \<open>k\<close> points (indices \<open>i < j < k\<close>) have the same x-coordinate: the
  denominators that the inner loop returns for both indices are zero.
\<close>

theorem duplicate_x_ZeroDenominator:
  "newFraction n 0 = Inl ZeroDenominator
   \<and> (i < j \<and> j < length points \<and> int j < k \<and> pt_x (points ! i) = pt_x (points ! j) \<longrightarrow>
        snd (basisWeight (slice0 points k) i) = 0
        \<and> snd (basisWeight (slice0 points k) j) = 0
        \<and> reconstructAtZero points k = Inl ZeroDenominator)"
proof -
  have "snd (basisWeight (slice0 points k) i) = 0
        \<and> snd (basisWeight (slice0 points k) j) = 0
        \<and> reconstructAtZero points k = Inl ZeroDenominator"
    if h: "i < j" "j < length points" "int j < k" "pt_x (points ! i) = pt_x (points ! j)"
  proof -
    let ?P = "slice0 points k"
    have P: "?P = take (nat k) points" using h(3) by (simp add: slice0_def)
    have len: "i < length ?P" "j < length ?P" using h(1,2,3) by (auto simp: P)
    have eq: "pt_x (?P ! i) = pt_x (?P ! j)" using h len by (simp add: P)
    have ne: "i \<noteq> j" using h(1) by simp
    have di: "snd (basisWeight ?P i) = 0"
      unfolding basisWeight_den_zero_iff using len(2) ne eq by (intro exI [of _ j]) simp
    have dj: "snd (basisWeight ?P j) = 0"
      unfolding basisWeight_den_zero_iff using len(1) ne eq by (intro exI [of _ i]) simp
    let ?xs = "map pt_x ?P"
    have "?xs ! i = ?xs ! j" using len eq by simp
    moreover have "i < length ?xs" "j < length ?xs" using len by simp_all
    ultimately have "\<not> distinct ?xs"
      using ne nth_eq_iff_index_eq [of ?xs i j] by blast
    then have "reconstructAtZero points k = Inl ZeroDenominator"
      by (rule reconstructAtZero_duplicate)
    with di dj show ?thesis by simp
  qed
  then show ?thesis by (simp add: newFraction_zero)
qed

theorem duplicate_x_ZeroDenominator_witness:
  "newFraction 7 0 = Inl ZeroDenominator
   \<and> pt_x ([\<lparr>pt_x = 1, pt_y = 10\<rparr>, \<lparr>pt_x = 2, pt_y = 19\<rparr>, \<lparr>pt_x = 2, pt_y = 32\<rparr>] ! 1)
       = pt_x ([\<lparr>pt_x = 1, pt_y = 10\<rparr>, \<lparr>pt_x = 2, pt_y = 19\<rparr>, \<lparr>pt_x = 2, pt_y = 32\<rparr>] ! 2)
   \<and> reconstructAtZero
        [\<lparr>pt_x = 1, pt_y = 10\<rparr>, \<lparr>pt_x = 2, pt_y = 19\<rparr>, \<lparr>pt_x = 2, pt_y = 32\<rparr>] 3
       = Inl ZeroDenominator"
proof -
  let ?ps = "[\<lparr>pt_x = 1, pt_y = 10\<rparr>, \<lparr>pt_x = 2, pt_y = 19\<rparr>, \<lparr>pt_x = 2, pt_y = 32\<rparr>]"
  have h: "(1::nat) < 2 \<and> 2 < length ?ps \<and> int 2 < 3 \<and> pt_x (?ps ! 1) = pt_x (?ps ! 2)"
    by simp
  note t = duplicate_x_ZeroDenominator [of 7 1 2 ?ps 3]
  from t have "newFraction 7 0 = Inl ZeroDenominator" by (rule conjunct1)
  moreover from t h have "reconstructAtZero ?ps 3 = Inl ZeroDenominator" by blast
  ultimately show ?thesis using h by blast
qed

section \<open>The intermediate reduction\<close>

text \<open>
  Claim C7. The reduction of \<open>num\<close> and \<open>den\<close> by their gcd inside the inner loop
  changes neither the value nor the error of \<open>reconstructAtZero\<close>: on every point list
  and threshold it agrees with the variant without the reduction. Only the intermediate
  pair differs, as for the x-coordinates 2, 4, 6, where the weight of index 0 is
  \<open>(3, 1)\<close> with the reduction and \<open>(24, 8)\<close> without.
\<close>

theorem reduction_is_transparent:
  "reconstructAtZero points k = reconstructAtZero_noreduce points k
   \<and> basisWeight [\<lparr>pt_x = 2, pt_y = 0\<rparr>, \<lparr>pt_x = 4, pt_y = 0\<rparr>, \<lparr>pt_x = 6, pt_y = 0\<rparr>] 0
       = (3, 1)
   \<and> basisWeight_noreduce
        [\<lparr>pt_x = 2, pt_y = 0\<rparr>, \<lparr>pt_x = 4, pt_y = 0\<rparr>, \<lparr>pt_x = 6, pt_y = 0\<rparr>] 0
       = (24, 8)"
proof -
  have "reconstructAtZero points k = reconstructAtZero_noreduce points k"
    unfolding reconstructAtZero_def reconstructAtZero_noreduce_def sumLoop_noreduce_eq
    by (rule refl)
  moreover have
    "basisWeight [\<lparr>pt_x = 2, pt_y = 0\<rparr>, \<lparr>pt_x = 4, pt_y = 0\<rparr>, \<lparr>pt_x = 6, pt_y = 0\<rparr>] 0
       = (3, 1)"
    by code_simp
  moreover have
    "basisWeight_noreduce
        [\<lparr>pt_x = 2, pt_y = 0\<rparr>, \<lparr>pt_x = 4, pt_y = 0\<rparr>, \<lparr>pt_x = 6, pt_y = 0\<rparr>] 0
       = (24, 8)"
    by code_simp
  ultimately show ?thesis by simp
qed

section \<open>Surplus points\<close>

text \<open>
  Claim C8. On a point list with at least \<open>k\<close> points, \<open>reconstructAtZero\<close> depends only
  on the first \<open>k\<close> points: it equals its value on the prefix of length \<open>k\<close>, whatever
  points follow that prefix.
\<close>

theorem first_k_points_only:
  assumes "0 \<le> k" "nat k \<le> length points"
  shows "reconstructAtZero points k = reconstructAtZero (take (nat k) points) k
         \<and> reconstructAtZero (take (nat k) points @ surplus) k
             = reconstructAtZero (take (nat k) points) k"
  using assms by (simp add: reconstructAtZero_def slice0_def)

theorem first_k_points_only_witness:
  "(0::int) \<le> 3
   \<and> nat 3 \<le> length [\<lparr>pt_x = 1, pt_y = 10\<rparr>, \<lparr>pt_x = 2, pt_y = 19\<rparr>,
                      \<lparr>pt_x = 3, pt_y = 32\<rparr>, \<lparr>pt_x = 3, pt_y = 7\<rparr>]
   \<and> reconstructAtZero [\<lparr>pt_x = 1, pt_y = 10\<rparr>, \<lparr>pt_x = 2, pt_y = 19\<rparr>,
                         \<lparr>pt_x = 3, pt_y = 32\<rparr>, \<lparr>pt_x = 3, pt_y = 7\<rparr>] 3
       = reconstructAtZero [\<lparr>pt_x = 1, pt_y = 10\<rparr>, \<lparr>pt_x = 2, pt_y = 19\<rparr>,
                            \<lparr>pt_x = 3, pt_y = 32\<rparr>] 3"
proof -
  let ?ps = "[\<lparr>pt_x = 1, pt_y = 10\<rparr>, \<lparr>pt_x = 2, pt_y = 19\<rparr>,
              \<lparr>pt_x = 3, pt_y = 32\<rparr>, \<lparr>pt_x = 3, pt_y = 7\<rparr>]"
  have 1: "(0::int) \<le> 3" by simp
  have 2: "nat 3 \<le> length ?ps" by simp
  have t: "take (nat 3) ?ps = [\<lparr>pt_x = 1, pt_y = 10\<rparr>, \<lparr>pt_x = 2, pt_y = 19\<rparr>,
                            \<lparr>pt_x = 3, pt_y = 32\<rparr>]"
    by (simp add: numeral_3_eq_3)
  from first_k_points_only [OF 1 2, of "[]"]
  have "reconstructAtZero ?ps 3 = reconstructAtZero (take (nat 3) ?ps) 3" by (rule conjunct1)
  with 1 2 t show ?thesis by simp
qed

section \<open>Lagrange interpolation\<close>

text \<open>
  Polynomial functions of bounded degree are closed under sums and products, and one of
  degree at most \<open>n\<close> with more than \<open>n\<close> roots vanishes everywhere. Hence the
  Lagrange sum over \<open>k\<close> distinct nodes reproduces every polynomial of degree below \<open>k\<close>.
\<close>

lemma polyfnI:
  assumes "\<And>i. i > n \<Longrightarrow> c i = 0" "\<And>t. g t = (\<Sum>i\<le>n. c i * t ^ i)"
  shows "polyfn n g"
  unfolding polyfn_def using assms by blast

lemma polyfn_const: "polyfn n (\<lambda>t. a)"
proof (rule polyfnI [where c = "\<lambda>i. if i = 0 then a else 0"])
  fix t :: real
  have "(\<Sum>i\<le>n. (if i = 0 then a else 0) * t ^ i) = (\<Sum>i\<le>n. if i = 0 then a else 0)"
    by (intro sum.cong) auto
  then show "a = (\<Sum>i\<le>n. (if i = 0 then a else 0) * t ^ i)" by simp
qed simp

lemma polyfn_id: "polyfn 1 (\<lambda>t. t)"
  by (rule polyfnI [where c = "\<lambda>i. if i = 1 then 1 else 0"]) simp_all

lemma polyfn_mono:
  assumes "polyfn m g" "m \<le> n"
  shows "polyfn n g"
proof -
  from assms(1) obtain c where c: "\<And>i. i > m \<Longrightarrow> c i = 0" "\<And>t. g t = (\<Sum>i\<le>m. c i * t ^ i)"
    unfolding polyfn_def by blast
  show ?thesis
  proof (rule polyfnI [where c = c])
    fix i assume "n < i"
    with assms(2) show "c i = 0" by (intro c(1)) simp
  next
    fix t
    have "(\<Sum>i\<le>m. c i * t ^ i) = (\<Sum>i\<le>n. c i * t ^ i)"
      using assms(2) by (intro sum.mono_neutral_left) (auto simp: c(1))
    then show "g t = (\<Sum>i\<le>n. c i * t ^ i)" by (simp add: c(2))
  qed
qed

lemma polyfn_add:
  assumes "polyfn n f" "polyfn n g"
  shows "polyfn n (\<lambda>t. f t + g t)"
proof -
  from assms(1) obtain a where a: "\<And>i. i > n \<Longrightarrow> a i = 0" "\<And>t. f t = (\<Sum>i\<le>n. a i * t ^ i)"
    unfolding polyfn_def by blast
  from assms(2) obtain b where b: "\<And>i. i > n \<Longrightarrow> b i = 0" "\<And>t. g t = (\<Sum>i\<le>n. b i * t ^ i)"
    unfolding polyfn_def by blast
  show ?thesis
    by (rule polyfnI [where c = "\<lambda>i. a i + b i"])
      (simp_all add: a b distrib_right sum.distrib)
qed

lemma polyfn_mult:
  assumes "polyfn m f" "polyfn n g"
  shows "polyfn (m + n) (\<lambda>t. f t * g t)"
proof -
  from assms(1) obtain a where a: "\<And>i. i > m \<Longrightarrow> a i = 0" "\<And>t. f t = (\<Sum>i\<le>m. a i * t ^ i)"
    unfolding polyfn_def by blast
  from assms(2) obtain b where b: "\<And>i. i > n \<Longrightarrow> b i = 0" "\<And>t. g t = (\<Sum>i\<le>n. b i * t ^ i)"
    unfolding polyfn_def by blast
  show ?thesis
  proof (rule polyfnI [where c = "\<lambda>r. \<Sum>k\<le>r. a k * b (r - k)"])
    fix r assume r: "m + n < r"
    have z: "a k * b (r - k) = 0" if "k \<le> r" for k
    proof (cases "k > m")
      case True
      then show ?thesis by (simp add: a(1))
    next
      case False
      with r that have "r - k > n" by simp
      then show ?thesis by (simp add: b(1))
    qed
    show "(\<Sum>k\<le>r. a k * b (r - k)) = 0"
      by (rule sum.neutral) (simp add: z del: mult_eq_0_iff)
  next
    fix t
    have "(\<Sum>i\<le>m. a i * t ^ i) * (\<Sum>j\<le>n. b j * t ^ j) =
          (\<Sum>r\<le>m + n. (\<Sum>k\<le>r. a k * b (r - k)) * t ^ r)"
      by (rule polynomial_product) (simp_all add: a(1) b(1))
    then show "f t * g t = (\<Sum>r\<le>m + n. (\<Sum>k\<le>r. a k * b (r - k)) * t ^ r)"
      by (simp add: a(2) b(2))
  qed
qed

lemma polyfn_sum:
  assumes "finite I" "\<And>i. i \<in> I \<Longrightarrow> polyfn n (f i)"
  shows "polyfn n (\<lambda>t. \<Sum>i\<in>I. f i t)"
  using assms
proof (induction I rule: finite_induct)
  case empty
  show ?case by (simp add: polyfn_const)
next
  case (insert i I)
  have "polyfn n (\<lambda>t. f i t + (\<Sum>i\<in>I. f i t))"
    by (intro polyfn_add insert) simp_all
  then show ?case using insert.hyps by simp
qed

lemma polyfn_factor: "polyfn 1 (\<lambda>t. (t - a) / b)"
proof -
  have "polyfn 1 (\<lambda>t. t + (- a))"
    by (intro polyfn_add polyfn_id polyfn_const)
  then have "polyfn (1 + 0) (\<lambda>t. (t + (- a)) * (1 / b))"
    by (intro polyfn_mult polyfn_const)
  then show ?thesis by (simp add: field_simps)
qed

lemma polyfn_prod:
  assumes "finite S"
  shows "polyfn (card S) (\<lambda>t. \<Prod>j\<in>S. (t - a j) / b j)"
  using assms
proof (induction S rule: finite_induct)
  case empty
  show ?case by (simp add: polyfn_const)
next
  case (insert j S)
  have "polyfn (1 + card S) (\<lambda>t. (t - a j) / b j * (\<Prod>j\<in>S. (t - a j) / b j))"
    by (intro polyfn_mult polyfn_factor insert.IH)
  then show ?case using insert.hyps by simp
qed

lemma polyfn_roots:
  assumes "polyfn n g" "finite R" "n < card R" "\<And>r. r \<in> R \<Longrightarrow> g r = 0"
  shows "g t = 0"
proof -
  from assms(1) obtain c where c: "\<And>t. g t = (\<Sum>i\<le>n. c i * t ^ i)"
    unfolding polyfn_def by blast
  have "c i = 0" if "i \<le> n" for i
  proof (rule ccontr)
    assume "c i \<noteq> 0"
    with that have fin: "finite {z. (\<Sum>i\<le>n. c i * z ^ i) = 0}"
      and card: "card {z. (\<Sum>i\<le>n. c i * z ^ i) = 0} \<le> n"
      using polyfun_rootbound [of c i n] by simp_all
    have "R \<subseteq> {z. (\<Sum>i\<le>n. c i * z ^ i) = 0}"
      using assms(4) c by auto
    with fin have "card R \<le> card {z. (\<Sum>i\<le>n. c i * z ^ i) = 0}" by (rule card_mono)
    with card assms(3) show False by simp
  qed
  then show ?thesis by (simp add: c)
qed

lemma lagrange_basis_at_node:
  fixes x :: "nat \<Rightarrow> real"
  assumes "inj_on x {..<k}" "i < k" "l < k"
  shows "(\<Prod>j\<in>{..<k} - {i}. (x l - x j) / (x i - x j)) = (if i = l then 1 else (0::real))"
proof (cases "i = l")
  case True
  have "(x l - x j) / (x i - x j) = 1" if "j \<in> {..<k} - {i}" for j
  proof -
    from that assms(1,2) have "x i \<noteq> x j" by (auto simp: inj_on_def)
    with True show ?thesis by simp
  qed
  then show ?thesis using True by simp
next
  case False
  have "l \<in> {..<k} - {i}" using False assms(3) by simp
  moreover have "(x l - x l) / (x i - x l) = 0" by simp
  ultimately have "(\<Prod>j\<in>{..<k} - {i}. (x l - x j) / (x i - x j)) = 0"
    by (intro prod_zero) auto
  with False show ?thesis by simp
qed

lemma lagrange_interpolation:
  fixes x :: "nat \<Rightarrow> real"
  assumes "inj_on x {..<k}" "0 < k" "polyfn (k - 1) p"
  shows "(\<Sum>i<k. p (x i) * (\<Prod>j\<in>{..<k} - {i}. (t - x j) / (x i - x j))) = p t"
proof -
  let ?B = "\<lambda>i t. \<Prod>j\<in>{..<k} - {i}. (t - x j) / (x i - x j)"
  let ?D = "\<lambda>t. (\<Sum>i<k. p (x i) * ?B i t) + (- 1) * p t"
  have B: "polyfn (k - 1) (?B i)" if "i < k" for i
  proof -
    have "polyfn (card ({..<k} - {i})) (?B i)" by (intro polyfn_prod) simp
    moreover have "card ({..<k} - {i}) = k - 1" using that by simp
    ultimately show ?thesis by simp
  qed
  have "polyfn (k - 1) (\<lambda>t. \<Sum>i\<in>{..<k}. p (x i) * ?B i t)"
  proof (intro polyfn_sum)
    fix i assume "i \<in> {..<k}"
    then have "polyfn (0 + (k - 1)) (\<lambda>t. p (x i) * ?B i t)"
      by (intro polyfn_mult polyfn_const B) simp
    then show "polyfn (k - 1) (\<lambda>t. p (x i) * ?B i t)" by simp
  qed simp
  moreover have "polyfn (0 + (k - 1)) (\<lambda>t. (- 1) * p t)"
    by (intro polyfn_mult polyfn_const assms(3))
  ultimately have D: "polyfn (k - 1) ?D"
    by (intro polyfn_add) simp_all
  have root: "?D r = 0" if "r \<in> x ` {..<k}" for r
  proof -
    from that obtain l where l: "l < k" "r = x l" by auto
    have "(\<Sum>i<k. p (x i) * ?B i (x l)) = (\<Sum>i<k. if i = l then p (x l) else 0)"
    proof (intro sum.cong refl)
      fix i assume "i \<in> {..<k}"
      then have "?B i (x l) = (if i = l then 1 else 0)"
        using lagrange_basis_at_node [OF assms(1) _ l(1), of i] by simp
      then show "p (x i) * ?B i (x l) = (if i = l then p (x l) else 0)" by simp
    qed
    also have "\<dots> = p (x l)" using l(1) by simp
    finally show ?thesis by (simp add: l(2))
  qed
  have "card (x ` {..<k}) = k" using assms(1) by (simp add: card_image)
  then have many: "k - 1 < card (x ` {..<k})" using assms(2) by simp
  have "?D t = 0"
  proof (rule polyfn_roots [OF D])
    show "finite (x ` {..<k})" by simp
    show "k - 1 < card (x ` {..<k})" by (rule many)
    show "?D r = 0" if "r \<in> x ` {..<k}" for r using that by (rule root)
  qed
  then show ?thesis by simp
qed

lemma of_int_peval: "real_of_int (peval cs v) = peval_real cs (of_int v)"
  by (induction cs) simp_all

lemma polyfn_peval: "polyfn (length cs - 1) (peval_real cs)"
proof (induction cs)
  case Nil
  have "peval_real [] = (\<lambda>t. 0)" by (rule ext) simp
  then show ?case by (simp add: polyfn_const)
next
  case (Cons c cs)
  show ?case
  proof (cases cs)
    case Nil
    then have "peval_real (c # cs) = (\<lambda>t. of_int c)" by (intro ext) simp
    then show ?thesis by (simp add: polyfn_const)
  next
    case (Cons c' cs')
    have "polyfn (1 + (length cs - 1)) (\<lambda>t. t * peval_real cs t)"
      by (intro polyfn_mult polyfn_id Cons.IH)
    then have "polyfn (length cs) (\<lambda>t. t * peval_real cs t)"
      using Cons by simp
    then have "polyfn (length cs) (\<lambda>t. of_int c + t * peval_real cs t)"
      by (intro polyfn_add polyfn_const)
    moreover have "peval_real (c # cs) = (\<lambda>t. of_int c + t * peval_real cs t)"
      by (rule ext) simp
    ultimately show ?thesis by simp
  qed
qed

section \<open>The value of the sum\<close>

text \<open>
  With pairwise distinct x-coordinates no denominator is zero, the outer loop succeeds, and
  the Fraction it returns stands for the Lagrange sum at \<open>0\<close>.
\<close>

lemma basisWeight_value:
  assumes "snd (basisWeight P i) \<noteq> 0"
  shows "real_of_int (fst (basisWeight P i)) / real_of_int (snd (basisWeight P i)) =
         (\<Prod>j<length P. real_of_int (numFactor P i j) / real_of_int (denFactor P i j))"
proof -
  let ?N = "prod_list (map (numFactor P i) [0..<length P])"
  let ?D = "prod_list (map (denFactor P i) [0..<length P])"
  from basisWeight_scale [of P i] obtain c where c: "0 < c"
    "fst (basisWeight P i) * c = ?N" "snd (basisWeight P i) * c = ?D" by auto
  have N: "?N = (\<Prod>j<length P. numFactor P i j)"
    by (simp add: prod.distinct_set_conv_list [symmetric] atLeast_upt [symmetric] lessThan_atLeast0)
  have D: "?D = (\<Prod>j<length P. denFactor P i j)"
    by (simp add: prod.distinct_set_conv_list [symmetric] atLeast_upt [symmetric] lessThan_atLeast0)
  have "real_of_int (fst (basisWeight P i)) / real_of_int (snd (basisWeight P i)) =
        real_of_int (fst (basisWeight P i) * c) / real_of_int (snd (basisWeight P i) * c)"
    using c(1) by simp
  also have "\<dots> = real_of_int ?N / real_of_int ?D" by (simp only: c(2,3))
  also have "\<dots> = (\<Prod>j<length P. real_of_int (numFactor P i j) / real_of_int (denFactor P i j))"
    by (simp only: N D of_int_prod prod_dividef)
  finally show ?thesis .
qed

lemma factor_product:
  assumes "i < k"
  shows "(\<Prod>j<k. real_of_int (numFactor P i j) / real_of_int (denFactor P i j)) =
         (\<Prod>j\<in>{..<k} - {i}. (0 - real_of_int (pt_x (P ! j)))
              / (real_of_int (pt_x (P ! i)) - real_of_int (pt_x (P ! j))))"
proof -
  let ?g = "\<lambda>j. real_of_int (numFactor P i j) / real_of_int (denFactor P i j)"
  have "prod ?g {..<k} = ?g i * prod ?g ({..<k} - {i})"
    using assms by (intro prod.remove) simp_all
  also have "?g i = 1" by (simp add: numFactor_def denFactor_def)
  also have "prod ?g ({..<k} - {i}) =
      (\<Prod>j\<in>{..<k} - {i}. (0 - real_of_int (pt_x (P ! j)))
              / (real_of_int (pt_x (P ! i)) - real_of_int (pt_x (P ! j))))"
    by (intro prod.cong refl) (simp add: numFactor_def denFactor_def)
  finally show ?thesis by simp
qed

lemma sumLoop_value:
  assumes "fraction_inv s0" "\<forall>i\<in>set js. snd (basisWeight P i) \<noteq> 0"
  shows "\<exists>s. sumLoop P js s0 = Inr s \<and> fraction_inv s
           \<and> fval s = fval s0 + (\<Sum>i\<leftarrow>js. real_of_int (pt_y (P ! i))
                 * (real_of_int (fst (basisWeight P i)) / real_of_int (snd (basisWeight P i))))"
  using assms
proof (induction js arbitrary: s0)
  case Nil
  then show ?case by simp
next
  case (Cons i js)
  obtain num den where b: "basisWeight P i = (num, den)" by (cases "basisWeight P i")
  with Cons.prems(2) have den: "den \<noteq> 0" by simp
  then obtain t where t: "newFraction (pt_y (P ! i) * num) den = Inr t"
    using newFraction_Inr_iff by blast
  have tinv: "fraction_inv t" using t by (rule newFraction_inv)
  have tval: "fval t = real_of_int (pt_y (P ! i)) * (real_of_int num / real_of_int den)"
    using newFraction_fval [OF t] by simp
  have d0: "fr_d s0 \<noteq> 0" using Cons.prems(1) by (rule fraction_inv_den)
  have dt: "fr_d t \<noteq> 0" using tinv by (rule fraction_inv_den)
  from add_Inr [OF d0 dt] obtain s1 where s1: "add s0 t = Inr s1" by blast
  have s1inv: "fraction_inv s1" using s1 by (rule add_inv)
  have s1val: "fval s1 = fval s0 + fval t" using d0 dt s1 by (rule add_fval)
  from Cons.prems(2) have "\<forall>i\<in>set js. snd (basisWeight P i) \<noteq> 0" by simp
  with s1inv obtain s where s: "sumLoop P js s1 = Inr s" "fraction_inv s"
    "fval s = fval s1 + (\<Sum>i\<leftarrow>js. real_of_int (pt_y (P ! i))
                 * (real_of_int (fst (basisWeight P i)) / real_of_int (snd (basisWeight P i))))"
    using Cons.IH by blast
  have "sumLoop P (i # js) s0 = Inr s" by (simp add: b t s1 s(1))
  moreover have "fval s = fval s0 + (\<Sum>i\<leftarrow>i # js. real_of_int (pt_y (P ! i))
                 * (real_of_int (fst (basisWeight P i)) / real_of_int (snd (basisWeight P i))))"
    by (simp add: s(3) s1val tval b)
  ultimately show ?case using s(2) by blast
qed

lemma reconstructAtZero_polynomial:
  assumes P: "P = slice0 points k"
    and len: "0 < length P" "length cs \<le> length P"
    and dist: "distinct (map pt_x P)"
    and on: "\<forall>p\<in>set P. pt_y p = peval cs (pt_x p)"
  shows "reconstructAtZero points k = Inr (peval cs 0)"
proof -
  let ?n = "length P"
  let ?x = "\<lambda>j. real_of_int (pt_x (P ! j))"
  have nz: "snd (basisWeight P i) \<noteq> 0" if "i < ?n" for i
  proof
    assume "snd (basisWeight P i) = 0"
    then obtain j where j: "j < ?n" "j \<noteq> i" "pt_x (P ! j) = pt_x (P ! i)"
      unfolding basisWeight_den_zero_iff by blast
    then have "map pt_x P ! j = map pt_x P ! i" using that by simp
    with dist j(1) that have "j = i"
      using nth_eq_iff_index_eq [of "map pt_x P" j i] by simp
    with j(2) show False by simp
  qed
  have "fraction_inv \<lparr>fr_n = 0, fr_d = 1\<rparr>" by (simp add: fraction_inv_def)
  moreover have "\<forall>i\<in>set [0..<?n]. snd (basisWeight P i) \<noteq> 0" using nz by simp
  ultimately obtain s where s: "sumLoop P [0..<?n] \<lparr>fr_n = 0, fr_d = 1\<rparr> = Inr s"
    "fraction_inv s"
    "fval s = fval \<lparr>fr_n = 0, fr_d = 1\<rparr> + (\<Sum>i\<leftarrow>[0..<?n]. real_of_int (pt_y (P ! i))
        * (real_of_int (fst (basisWeight P i)) / real_of_int (snd (basisWeight P i))))"
    using sumLoop_value by blast
  have inj: "inj_on ?x {..<?n}"
  proof (rule inj_onI)
    fix i j assume ij: "i \<in> {..<?n}" "j \<in> {..<?n}" and "?x i = ?x j"
    then have "map pt_x P ! i = map pt_x P ! j" by simp
    with dist ij show "i = j"
      using nth_eq_iff_index_eq [of "map pt_x P" i j] by simp
  qed
  have poly: "polyfn (?n - 1) (peval_real cs)"
    using len(2) by (intro polyfn_mono [OF polyfn_peval [of cs]]) simp
  have z: "fval \<lparr>fr_n = 0, fr_d = 1\<rparr> = 0" by (simp add: fval_def)
  have sl: "(\<Sum>i\<leftarrow>[0..<?n]. g i) = (\<Sum>i<?n. g i)" for g :: "nat \<Rightarrow> real"
    by (simp add: interv_sum_list_conv_sum_set_nat lessThan_atLeast0)
  have "fval s = (\<Sum>i<?n. real_of_int (pt_y (P ! i))
        * (real_of_int (fst (basisWeight P i)) / real_of_int (snd (basisWeight P i))))"
    by (simp only: s(3) z sl add_0_left)
  also have "\<dots> = (\<Sum>i<?n. peval_real cs (?x i)
        * (\<Prod>j\<in>{..<?n} - {i}. (0 - ?x j) / (?x i - ?x j)))"
  proof (intro sum.cong refl)
    fix i assume "i \<in> {..<?n}"
    then have i: "i < ?n" by simp
    then have "pt_y (P ! i) = peval cs (pt_x (P ! i))" using on by simp
    then have "real_of_int (pt_y (P ! i)) = peval_real cs (?x i)"
      by (simp add: of_int_peval)
    then show "real_of_int (pt_y (P ! i))
        * (real_of_int (fst (basisWeight P i)) / real_of_int (snd (basisWeight P i))) =
      peval_real cs (?x i) * (\<Prod>j\<in>{..<?n} - {i}. (0 - ?x j) / (?x i - ?x j))"
      by (simp only: basisWeight_value [OF nz [OF i]] factor_product [OF i])
  qed
  also have "\<dots> = peval_real cs 0"
    using inj len(1) poly by (rule lagrange_interpolation)
  also have "\<dots> = real_of_int (peval cs 0)"
    using of_int_peval [of cs 0] by simp
  finally have "fval s = real_of_int (peval cs 0)" .
  with s(2) have "toBigIntExact s = Inr (peval cs 0)" by (rule toBigIntExact_of_int)
  then show ?thesis
    using s(1) by (simp add: reconstructAtZero_def fromBigInt_zero Let_def P [symmetric])
qed

section \<open>Round trip\<close>

text \<open>
  Claim C1. Let \<open>f\<close> be a polynomial with integer coefficients \<open>c0 # cs\<close>, of degree
  \<open>d = length cs\<close>, and let the first \<open>k\<close> points of the list have pairwise distinct
  x-coordinates and lie on \<open>f\<close>, with \<open>k \<ge> d + 1\<close>. Then \<open>reconstructAtZero\<close> with
  threshold \<open>k\<close> returns the constant term \<open>c0\<close>. For the samples \<open>(1,10)\<close>,
  \<open>(2,19)\<close>, \<open>(3,32)\<close> of \<open>2x\<^sup>2 + 3x + 5\<close> and \<open>k = 3\<close> it returns \<open>5\<close>.
\<close>

theorem round_trip:
  assumes "int (length (c0 # cs)) \<le> k"
    and "nat k \<le> length points"
    and "distinct (map pt_x (take (nat k) points))"
    and "\<forall>p\<in>set (take (nat k) points). pt_y p = peval (c0 # cs) (pt_x p)"
  shows "reconstructAtZero points k = Inr c0
         \<and> map (peval [5, 3, 2]) [1, 2, 3] = [10, 19, 32]
         \<and> reconstructAtZero
              [\<lparr>pt_x = 1, pt_y = 10\<rparr>, \<lparr>pt_x = 2, pt_y = 19\<rparr>, \<lparr>pt_x = 3, pt_y = 32\<rparr>] 3
             = Inr 5"
proof -
  let ?P = "take (nat k) points"
  have k: "0 < k" using assms(1) by simp
  then have P: "?P = slice0 points k" by (simp add: slice0_def)
  have n: "length ?P = nat k" using assms(2) by simp
  have "0 < length ?P" using k n by simp
  moreover have "length (c0 # cs) \<le> length ?P" using assms(1) n by simp
  ultimately have "reconstructAtZero points k = Inr (peval (c0 # cs) 0)"
    using P assms(3,4) by (intro reconstructAtZero_polynomial [where P = ?P])
  then have "reconstructAtZero points k = Inr c0" by simp
  moreover have "map (peval [5, 3, 2]) [1, 2, 3] = [10, 19, 32]" by simp
  moreover have "reconstructAtZero
      [\<lparr>pt_x = 1, pt_y = 10\<rparr>, \<lparr>pt_x = 2, pt_y = 19\<rparr>, \<lparr>pt_x = 3, pt_y = 32\<rparr>] 3 = Inr 5"
    by code_simp
  ultimately show ?thesis by simp
qed

theorem round_trip_witness:
  "reconstructAtZero
     [\<lparr>pt_x = 1, pt_y = 10\<rparr>, \<lparr>pt_x = 2, pt_y = 19\<rparr>, \<lparr>pt_x = 3, pt_y = 32\<rparr>,
      \<lparr>pt_x = - 1, pt_y = 4\<rparr>, \<lparr>pt_x = 7, pt_y = 0\<rparr>] 4 = Inr 5"
proof -
  let ?ps = "[\<lparr>pt_x = 1, pt_y = 10\<rparr>, \<lparr>pt_x = 2, pt_y = 19\<rparr>, \<lparr>pt_x = 3, pt_y = 32\<rparr>,
      \<lparr>pt_x = - 1, pt_y = 4\<rparr>, \<lparr>pt_x = 7, pt_y = 0\<rparr>]"
  have 1: "int (length (5 # [3, 2 :: int])) \<le> 4" by simp
  have 2: "nat 4 \<le> length ?ps" by simp
  have 3: "distinct (map pt_x (take (nat 4) ?ps))" by code_simp
  have 4: "\<forall>p\<in>set (take (nat 4) ?ps). pt_y p = peval (5 # [3, 2]) (pt_x p)" by code_simp
  from round_trip [OF 1 2 3 4] show ?thesis by (rule conjunct1)
qed

end
